theory Spec2Isabelle
  imports Complex_Main
begin

section \<open>JavaScript numbers\<close>

text \<open>
  Coordinates are JavaScript numbers: IEEE 754 binary64 values. A number is NaN, an
  infinity or a finite value \<open>Fin q\<close> with \<open>q\<close> rational; the finite doubles are the
  rationals that rounding leaves unchanged (\<open>is_double\<close> below). The two zeros are not
  told apart: the program only adds, halves and compares numbers, and the sign of a zero
  changes no comparison and no sum or half other than the sign of a zero result.
\<close>

datatype num = NaN | NegInf | Fin rat | PosInf

text \<open>The comparisons \<^verbatim>\<open><=\<close> and \<^verbatim>\<open><\<close> on numbers; any comparison with NaN is false.\<close>

fun num_le :: "num \<Rightarrow> num \<Rightarrow> bool" where
  "num_le NaN b = False"
| "num_le a NaN = False"
| "num_le NegInf b = True"
| "num_le a PosInf = True"
| "num_le (Fin a) (Fin b) = (a \<le> b)"
| "num_le a b = False"

fun num_lt :: "num \<Rightarrow> num \<Rightarrow> bool" where
  "num_lt NaN b = False"
| "num_lt a NaN = False"
| "num_lt PosInf b = False"
| "num_lt a NegInf = False"
| "num_lt (Fin a) (Fin b) = (a < b)"
| "num_lt a b = True"

subsection \<open>Rounding to the nearest double\<close>

text \<open>
  \<open>lg q\<close> is the integer part of the binary logarithm of a positive rational: \<open>lg_up\<close>
  counts the halvings that bring a rational from 1 upwards below 2, \<open>lg_down\<close> the
  doublings that bring a rational below 1 up to 1.
\<close>

function lg_up :: "rat \<Rightarrow> nat" where
  "lg_up q = (if q < 2 then 0 else Suc (lg_up (q / 2)))"
  by pat_completeness auto
termination
proof (relation "measure (\<lambda>q. nat \<lfloor>q\<rfloor>)", goal_cases)
  case 1
  show ?case by simp
next
  case (2 q)
  then have "2 \<le> q" by simp
  then have "q / 2 \<le> q - 1" by simp
  then have "\<lfloor>q / 2\<rfloor> \<le> \<lfloor>q - 1\<rfloor>" by (rule floor_mono)
  moreover have "1 \<le> \<lfloor>q\<rfloor>" using \<open>2 \<le> q\<close> by linarith
  ultimately show ?case by simp
qed

function lg_down :: "rat \<Rightarrow> nat" where
  "lg_down q = (if q \<le> 0 \<or> 1 \<le> q then 0 else Suc (lg_down (2 * q)))"
  by pat_completeness auto
termination
proof (relation "measure (\<lambda>q. nat \<lceil>1 / q\<rceil>)", goal_cases)
  case 1
  show ?case by simp
next
  case (2 q)
  then have q: "0 < q" "q < 1" by simp_all
  then have a: "1 < 1 / q" by simp
  have "1 / (2 * q) \<le> 1 / q - 1 \<or> 1 / q \<le> 2"
    using q by (auto simp: field_simps)
  then have "\<lceil>1 / (2 * q)\<rceil> < \<lceil>1 / q\<rceil>"
  proof
    assume "1 / (2 * q) \<le> 1 / q - 1"
    then have "\<lceil>1 / (2 * q)\<rceil> \<le> \<lceil>1 / q - 1\<rceil>" by (rule ceiling_mono)
    then show ?thesis by simp
  next
    assume b: "1 / q \<le> 2"
    then have "1 / (2 * q) \<le> 1" using q by (simp add: field_simps)
    then have "\<lceil>1 / (2 * q)\<rceil> \<le> 1" by (simp add: ceiling_le_iff)
    moreover have "2 \<le> \<lceil>1 / q\<rceil>" using a by linarith
    ultimately show ?thesis by linarith
  qed
  moreover have "0 < \<lceil>1 / q\<rceil>" using a by linarith
  ultimately show ?case by simp
qed

definition lg :: "rat \<Rightarrow> int" where
  "lg q = (if 1 \<le> q then int (lg_up q) else - int (lg_down q))"

text \<open>Rounding a rational to the nearest integer, a tie going to the even one.\<close>

definition rne :: "rat \<Rightarrow> int" where
  "rne t =
     (let f = \<lfloor>t\<rfloor>; r = t - of_int f
      in if r < 1 / 2 then f else if 1 / 2 < r then f + 1
         else if even f then f else f + 1)"

text \<open>
  A double has a significand of 53 bits and an exponent from -1022 up to 1023, so near
  \<open>q\<close> the doubles are the multiples of \<open>2 powi ulp_exp q\<close>; below \<open>2 powi (- 1022)\<close>
  (the subnormal range) the spacing stays \<open>2 powi (- 1074)\<close>. \<open>round_core\<close> rounds to the
  nearest such multiple, ties to even; \<open>round_double\<close> turns a result of magnitude
  \<open>2 ^ 1024\<close> or more into an infinity.
\<close>

definition ulp_exp :: "rat \<Rightarrow> int" where
  "ulp_exp q = max (lg \<bar>q\<bar>) (- 1022) - 52"

definition round_core :: "rat \<Rightarrow> rat" where
  "round_core q =
     (if q = 0 then 0
      else sgn q * of_int (rne (\<bar>q\<bar> / 2 powi ulp_exp q)) * 2 powi ulp_exp q)"

definition round_double :: "rat \<Rightarrow> num" where
  "round_double q =
     (let r = round_core q
      in if 2 ^ 1024 \<le> r then PosInf else if r \<le> - (2 ^ 1024) then NegInf else Fin r)"

text \<open>The operations \<^verbatim>\<open>a + b\<close> and \<^verbatim>\<open>a / 2\<close>, and the expression \<^verbatim>\<open>(a + b) / 2\<close>.\<close>

fun js_add :: "num \<Rightarrow> num \<Rightarrow> num" where
  "js_add NaN b = NaN"
| "js_add a NaN = NaN"
| "js_add PosInf NegInf = NaN"
| "js_add NegInf PosInf = NaN"
| "js_add PosInf b = PosInf"
| "js_add a PosInf = PosInf"
| "js_add NegInf b = NegInf"
| "js_add a NegInf = NegInf"
| "js_add (Fin a) (Fin b) = round_double (a + b)"

fun js_half :: "num \<Rightarrow> num" where
  "js_half NaN = NaN"
| "js_half PosInf = PosInf"
| "js_half NegInf = NegInf"
| "js_half (Fin a) = round_double (a / 2)"

definition midpoint :: "num \<Rightarrow> num \<Rightarrow> num" where
  "midpoint a b = js_half (js_add a b)"

section \<open>The region tree of src/App.js\<close>

text \<open>
  The budgets \<open>maxItems\<close> and \<open>depth\<close> are natural numbers (the program only ever
  passes the defaults 1 and 8 and decrements \<open>depth\<close> where it is positive).
\<close>

subsection \<open>Data\<close>

text \<open>A point is the object literal \<^verbatim>\<open>{ x, y }\<close>.\<close>

record point =
  x :: num
  y :: num

text \<open>
  A rectangle is the object literal \<^verbatim>\<open>{ left, top, right, bottom }\<close>; the field
  \<^verbatim>\<open>top\<close> is written \<open>top_b\<close>.
\<close>

record rect =
  left :: num
  top_b :: num
  right :: num
  bottom :: num

text \<open>
  The first argument of \<^verbatim>\<open>intersects\<close> is read through its properties \<^verbatim>\<open>x\<close> and
  \<^verbatim>\<open>y\<close>. The program passes it point objects and rectangle objects; a rectangle object
  has no such property, and reading it gives \<^verbatim>\<open>undefined\<close>, here \<open>None\<close>.
\<close>

datatype obj = PointObj point | RectObj rect

fun prop_x :: "obj \<Rightarrow> num option" where
  "prop_x (PointObj p) = Some (x p)"
| "prop_x (RectObj r) = None"

fun prop_y :: "obj \<Rightarrow> num option" where
  "prop_y (PointObj p) = Some (y p)"
| "prop_y (RectObj r) = None"

text \<open>
  The comparisons \<^verbatim>\<open>>=\<close> and \<^verbatim>\<open><=\<close> of JavaScript with a number on the right:
  \<^verbatim>\<open>undefined\<close> converts to NaN, and every comparison with NaN is false.
\<close>

fun js_ge :: "num option \<Rightarrow> num \<Rightarrow> bool" where
  "js_ge None b = False"
| "js_ge (Some a) b = num_le b a"

fun js_le :: "num option \<Rightarrow> num \<Rightarrow> bool" where
  "js_le None b = False"
| "js_le (Some a) b = num_le a b"

definition intersects :: "obj \<Rightarrow> rect \<Rightarrow> bool" where
  "intersects pt bnds \<longleftrightarrow>
     js_ge (prop_x pt) (left bnds) \<and> js_le (prop_x pt) (right bnds) \<and>
     js_ge (prop_y pt) (top_b bnds) \<and> js_le (prop_y pt) (bottom bnds)"

text \<open>The class \<^verbatim>\<open>QuadTree\<close>: its five fields, the children owned by the node.\<close>

datatype QuadTree =
  QuadTree (bounds: rect) (maxItems: nat) (depth: nat) (points: "point list")
    (children: "QuadTree list")

text \<open>The constructor, and the constructor with its default arguments.\<close>

definition QuadTree_new :: "rect \<Rightarrow> nat \<Rightarrow> nat \<Rightarrow> QuadTree" where
  "QuadTree_new b m d = QuadTree b m d [] []"

definition QuadTree_default :: "rect \<Rightarrow> QuadTree" where
  "QuadTree_default b = QuadTree_new b 1 8"

subsection \<open>subdivide\<close>

definition subdivide :: "QuadTree \<Rightarrow> QuadTree" where
  "subdivide t =
     (if length (children t) > 0 \<or> depth t = 0 then t
      else
        let l = left (bounds t); tp = top_b (bounds t);
            r = right (bounds t); bt = bottom (bounds t);
            midX = js_half (js_add l r);
            midY = js_half (js_add tp bt);
            c1 = [QuadTree_new \<lparr>left = l, top_b = tp, right = midX, bottom = midY\<rparr>
                    (maxItems t) (depth t - 1)];
            c2 = c1 @ [QuadTree_new \<lparr>left = midX, top_b = tp, right = r, bottom = midY\<rparr>
                    (maxItems t) (depth t - 1)];
            c3 = c2 @ [QuadTree_new \<lparr>left = l, top_b = midY, right = midX, bottom = bt\<rparr>
                    (maxItems t) (depth t - 1)];
            c4 = c3 @ [QuadTree_new \<lparr>left = midX, top_b = midY, right = r, bottom = bt\<rparr>
                    (maxItems t) (depth t - 1)]
        in QuadTree (bounds t) (maxItems t) (depth t) (points t) c4)"

subsection \<open>insert\<close>

text \<open>
  The recursion of \<^verbatim>\<open>insert\<close> goes through children that \<^verbatim>\<open>subdivide\<close> may just have
  created, so it is not structural. \<open>pot\<close> counts the nodes a subtree can still grow to.
\<close>

fun budget :: "nat \<Rightarrow> nat" where
  "budget 0 = 0"
| "budget (Suc d) = 4 * (1 + budget d)"

fun pot :: "QuadTree \<Rightarrow> nat" where
  "pot (QuadTree b m d ps cs) = 1 + (if cs = [] then budget d else sum_list (map pot cs))"

text \<open>
  \<^verbatim>\<open>insert\<close> returns its boolean together with the node as the call leaves it.
  \<open>insert_some\<close> is \<^verbatim>\<open>this.children.some(child => child.insert(point))\<close>: the children are
  tried in order, and the first one that accepts ends the loop.
\<close>

function insert_qt :: "point \<Rightarrow> QuadTree \<Rightarrow> bool \<times> QuadTree"
  and insert_some :: "point \<Rightarrow> QuadTree list \<Rightarrow> bool \<times> QuadTree list" where
  "insert_qt p (QuadTree b m d ps cs) =
     (if \<not> intersects (PointObj p) b then (False, QuadTree b m d ps cs)
      else if length ps < m \<and> d > 0 then (True, QuadTree b m d (ps @ [p]) cs)
      else
        (case insert_some p
           (children (if length cs = 0 then subdivide (QuadTree b m d ps cs)
                      else QuadTree b m d ps cs)) of
           (ok, cs') \<Rightarrow> (ok, QuadTree b m d ps cs')))"
| "insert_some p [] = (False, [])"
| "insert_some p (c # cs) =
     (case insert_qt p c of
        (ok, c') \<Rightarrow>
          if ok then (True, c' # cs)
          else (case insert_some p cs of (ok', cs') \<Rightarrow> (ok', c' # cs')))"
  by pat_completeness auto

termination
proof (relation "measure (\<lambda>a. case a of
    Inl (p, t) \<Rightarrow> 2 * pot t
  | Inr (p, cs) \<Rightarrow> 2 * sum_list (map pot cs) + 1)", goal_cases)
  case 1
  show ?case by simp
next
  case (2 p b m d ps cs)
  have fresh: "sum_list (map pot (children (subdivide (QuadTree b m d ps [])))) = budget d"
    by (cases d) (simp_all add: subdivide_def QuadTree_new_def Let_def)
  show ?case
  proof (cases "cs = []")
    case True
    then show ?thesis using fresh by simp
  next
    case False
    then show ?thesis by simp
  qed
next
  case 3
  show ?case by simp
next
  case (4 p c cs)
  have "0 < pot c" by (cases c) simp
  then show ?case by simp
qed

text \<open>The caller's loop \<^verbatim>\<open>allPoints.forEach(point => tree.insert(point))\<close>, with the
  results of the calls.\<close>

fun insert_all :: "point list \<Rightarrow> QuadTree \<Rightarrow> bool list \<times> QuadTree" where
  "insert_all [] t = ([], t)"
| "insert_all (p # ps) t =
     (case insert_qt p t of
        (ok, t') \<Rightarrow> (case insert_all ps t' of (oks, t'') \<Rightarrow> (ok # oks, t'')))"

subsection \<open>queryRange and findCommonPoints\<close>

text \<open>The array \<^verbatim>\<open>found\<close> is passed along and returned; the parameter
  \<^verbatim>\<open>range\<close> is written \<open>rng\<close>.\<close>

fun queryRange :: "rect \<Rightarrow> QuadTree \<Rightarrow> point list \<Rightarrow> point list" where
  "queryRange rng (QuadTree b m d ps cs) found =
     (if \<not> intersects (RectObj rng) b then found
      else
        let found1 = fold (\<lambda>p acc. if intersects (PointObj p) rng then acc @ [p] else acc)
                       ps found
        in fold (\<lambda>child acc. queryRange rng child acc) cs found1)"

fun findCommonPoints :: "QuadTree \<Rightarrow> QuadTree \<Rightarrow> point list \<Rightarrow> point list" where
  "findCommonPoints (QuadTree b m d ps cs) otherQuadTree commonPoints =
     (if \<not> intersects (RectObj b) (bounds otherQuadTree) then commonPoints
      else
        let common1 = fold (\<lambda>p acc.
              if length (queryRange
                   \<lparr>left = x p, top_b = y p, right = x p, bottom = y p\<rparr> otherQuadTree []) > 0
              then acc @ [p] else acc) ps commonPoints
        in fold (\<lambda>child acc. findCommonPoints child otherQuadTree acc) cs common1)"

section \<open>Notions used to state the properties\<close>

text \<open>The canvas of the application, \<^verbatim>\<open>quadTreeBounds\<close>.\<close>

definition quadTreeBounds :: rect where
  "quadTreeBounds = \<lparr>left = Fin 0, top_b = Fin 0, right = Fin 600, bottom = Fin 400\<rparr>"

text \<open>Well-formed bounds, and the closed region a rectangle covers.\<close>

definition wf_bounds :: "rect \<Rightarrow> bool" where
  "wf_bounds b \<longleftrightarrow> num_le (left b) (right b) \<and> num_le (top_b b) (bottom b)"

definition region :: "rect \<Rightarrow> point set" where
  "region b =
     {p. num_le (left b) (x p) \<and> num_le (x p) (right b) \<and>
         num_le (top_b b) (y p) \<and> num_le (y p) (bottom b)}"

text \<open>The midpoints and the four quadrants that \<open>subdivide\<close> computes, in its order.\<close>

definition midX :: "rect \<Rightarrow> num" where
  "midX b = js_half (js_add (left b) (right b))"

definition midY :: "rect \<Rightarrow> num" where
  "midY b = js_half (js_add (top_b b) (bottom b))"

definition quadrants :: "rect \<Rightarrow> rect list" where
  "quadrants b =
     [\<lparr>left = left b, top_b = top_b b, right = midX b, bottom = midY b\<rparr>,
      \<lparr>left = midX b, top_b = top_b b, right = right b, bottom = midY b\<rparr>,
      \<lparr>left = left b, top_b = midY b, right = midX b, bottom = bottom b\<rparr>,
      \<lparr>left = midX b, top_b = midY b, right = right b, bottom = bottom b\<rparr>]"

text \<open>
  The finite doubles are the rationals that rounding returns as they are. The bounds of
  a node have finite sums when its four coordinates are finite doubles and neither
  \<^verbatim>\<open>left + right\<close> nor \<^verbatim>\<open>top + bottom\<close> overflows; they are in range when the four
  coordinates are finite doubles of magnitude at most \<open>2 ^ 1022\<close>, so that no sum of two
  numbers between them overflows.
\<close>

definition is_double :: "rat \<Rightarrow> bool" where
  "is_double q \<longleftrightarrow> round_double q = Fin q"

fun finite_double :: "num \<Rightarrow> bool" where
  "finite_double (Fin q) = is_double q"
| "finite_double a = False"

fun small_double :: "num \<Rightarrow> bool" where
  "small_double (Fin q) = (is_double q \<and> \<bar>q\<bar> \<le> 2 ^ 1022)"
| "small_double a = False"

definition finite_sums :: "rect \<Rightarrow> bool" where
  "finite_sums b \<longleftrightarrow>
     finite_double (left b) \<and> finite_double (right b) \<and>
     finite_double (top_b b) \<and> finite_double (bottom b) \<and>
     finite_double (js_add (left b) (right b)) \<and>
     finite_double (js_add (top_b b) (bottom b))"

definition in_range :: "rect \<Rightarrow> bool" where
  "in_range b \<longleftrightarrow>
     small_double (left b) \<and> small_double (right b) \<and>
     small_double (top_b b) \<and> small_double (bottom b)"

text \<open>
  The values \<open>m * 2 powi k\<close> with a significand of at most 53 bits and an exponent of at
  least -1074: the doubles, continued beyond the largest one.
\<close>

definition is_grid :: "rat \<Rightarrow> bool" where
  "is_grid d \<longleftrightarrow> (\<exists>m k. d = of_int m * 2 powi k \<and> \<bar>m\<bar> \<le> 2 ^ 53 \<and> - 1074 \<le> k)"

text \<open>The children \<open>insert_qt\<close> hands the point to: those of the node, subdivided first
  when it has none.\<close>

definition expand :: "QuadTree \<Rightarrow> QuadTree list" where
  "expand t = children (if length (children t) = 0 then subdivide t else t)"

text \<open>All nodes of a tree, and the tree a sequence of inserts builds from a fresh root.\<close>

fun nodes :: "QuadTree \<Rightarrow> QuadTree list" where
  "nodes (QuadTree b m d ps cs) = QuadTree b m d ps cs # concat (map nodes cs)"

definition build :: "rect \<Rightarrow> nat \<Rightarrow> nat \<Rightarrow> point list \<Rightarrow> QuadTree" where
  "build b m d ps = snd (insert_all ps (QuadTree_new b m d))"

text \<open>
  The shape every tree built by the program has: a node without depth budget holds
  nothing, and the children of a node are the four quadrants of its bounds, one level
  lower and with the same threshold.
\<close>

fun tree_inv :: "QuadTree \<Rightarrow> bool" where
  "tree_inv (QuadTree b m d ps cs) \<longleftrightarrow>
     (d = 0 \<longrightarrow> ps = [] \<and> cs = []) \<and>
     (cs \<noteq> [] \<longrightarrow> map bounds cs = quadrants b \<and>
        (\<forall>c \<in> set cs. maxItems c = m \<and> Suc (depth c) = d)) \<and>
     (\<forall>c \<in> set cs. tree_inv c)"

text \<open>
  \<open>room p t\<close> counts the inserts of \<open>p\<close> that \<open>t\<close> can still accept: the free slots of
  every node with depth budget whose bounds hold \<open>p\<close>, along all paths, the nodes not yet
  created included (\<open>fresh_room\<close>).
\<close>

fun fresh_room :: "point \<Rightarrow> rect \<Rightarrow> nat \<Rightarrow> nat \<Rightarrow> nat" where
  "fresh_room p b m 0 = 0"
| "fresh_room p b m (Suc d) =
     (if intersects (PointObj p) b
      then m + sum_list (map (\<lambda>q. fresh_room p q m d) (quadrants b)) else 0)"

fun room :: "point \<Rightarrow> QuadTree \<Rightarrow> nat" where
  "room p (QuadTree b m d ps cs) =
     (if \<not> intersects (PointObj p) b then 0
      else (if 0 < d then m - length ps else 0) +
           (if cs = [] then
              (case d of 0 \<Rightarrow> 0
               | Suc d' \<Rightarrow> sum_list (map (\<lambda>q. fresh_room p q m d') (quadrants b)))
            else sum_list (map (room p) cs)))"

text \<open>
  A point lies strictly inside a rectangle when it is on none of its four edges. It lies
  strictly inside one quadrant at each of the next \<open>d\<close> subdivision levels of \<open>b\<close> when
  it lies strictly inside one of the four quadrants \<open>subdivide\<close> computes for \<open>b\<close> and,
  in that quadrant, strictly inside one quadrant at each of the next \<open>d - 1\<close> levels.
\<close>

definition strictly_inside :: "point \<Rightarrow> rect \<Rightarrow> bool" where
  "strictly_inside p b \<longleftrightarrow>
     num_lt (left b) (x p) \<and> num_lt (x p) (right b) \<and>
     num_lt (top_b b) (y p) \<and> num_lt (y p) (bottom b)"

fun inside_one_quadrant :: "point \<Rightarrow> rect \<Rightarrow> nat \<Rightarrow> bool" where
  "inside_one_quadrant p b 0 = True"
| "inside_one_quadrant p b (Suc d) =
     list_ex (\<lambda>q. strictly_inside p q \<and> inside_one_quadrant p q d) (quadrants b)"

text \<open>
  \<open>only_grown t t'\<close>: \<open>t'\<close> is \<open>t\<close> with, at most, new subtrees that hold no point
  below nodes that had no children; every node of \<open>t\<close> keeps its bounds, budgets and
  stored points.
\<close>

fun empty_tree :: "QuadTree \<Rightarrow> bool" where
  "empty_tree (QuadTree b m d ps cs) \<longleftrightarrow> ps = [] \<and> (\<forall>c \<in> set cs. empty_tree c)"

fun only_grown :: "QuadTree \<Rightarrow> QuadTree \<Rightarrow> bool" where
  "only_grown (QuadTree b m d ps cs) t' \<longleftrightarrow>
     bounds t' = b \<and> maxItems t' = m \<and> depth t' = d \<and> points t' = ps \<and>
     (if cs = [] then \<forall>c \<in> set (children t'). empty_tree c
      else list_all2 only_grown cs (children t'))"

text \<open>
  A node is tiled by its children when their bounds are the four quadrants of its own
  bounds in the order top-left, top-right, bottom-left, bottom-right, the regions of the
  children together cover exactly the region of the node, and two different children
  meet on the midlines only.
\<close>

definition tiled :: "QuadTree \<Rightarrow> bool" where
  "tiled n \<longleftrightarrow>
     map bounds (children n) = quadrants (bounds n) \<and>
     (\<Union>c \<in> set (children n). region (bounds c)) = region (bounds n) \<and>
     (\<forall>i<4. \<forall>j<4. i \<noteq> j \<longrightarrow>
        region (bounds (children n ! i)) \<inter> region (bounds (children n ! j))
          \<subseteq> {p. x p = midX (bounds n) \<or> y p = midY (bounds n)})"

section \<open>Facts about numbers\<close>

declare lg_up.simps [simp del] lg_down.simps [simp del]

subsection \<open>Comparisons\<close>

lemma num_le_NaN: "num_le a b \<Longrightarrow> a \<noteq> NaN \<and> b \<noteq> NaN"
  by (cases a; cases b) simp_all

lemma num_le_refl: "a \<noteq> NaN \<Longrightarrow> num_le a a"
  by (cases a) simp_all

lemma num_le_trans: "num_le a b \<Longrightarrow> num_le b c \<Longrightarrow> num_le a c"
  by (cases a; cases b; cases c) simp_all

lemma num_le_antisym: "num_le a b \<Longrightarrow> num_le b a \<Longrightarrow> a = b"
  by (cases a; cases b) simp_all

lemma num_le_total: "a \<noteq> NaN \<Longrightarrow> b \<noteq> NaN \<Longrightarrow> num_le a b \<or> num_le b a"
  by (cases a; cases b) auto

lemma num_lt_le: "num_lt a b \<Longrightarrow> num_le a b"
  by (cases a; cases b) simp_all

lemma num_lt_not_le: "num_lt a b \<Longrightarrow> \<not> num_le b a"
  by (cases a; cases b) simp_all

subsection \<open>Binary logarithm\<close>

lemma lg_up_bounds: "1 \<le> q \<Longrightarrow> 2 ^ lg_up q \<le> q \<and> q < 2 ^ Suc (lg_up q)"
proof (induction q rule: lg_up.induct)
  case (1 q)
  show ?case
  proof (cases "q < 2")
    case True
    then show ?thesis using "1.prems" by (simp add: lg_up.simps)
  next
    case False
    then have "2 ^ lg_up (q / 2) \<le> q / 2 \<and> q / 2 < 2 ^ Suc (lg_up (q / 2))"
      using "1.IH" by simp
    then show ?thesis using False by (simp add: lg_up.simps [of q])
  qed
qed

lemma lg_down_bounds:
  "0 < q \<Longrightarrow> q < 1 \<Longrightarrow> 1 \<le> q * 2 ^ lg_down q \<and> q * 2 ^ lg_down q < 2"
proof (induction q rule: lg_down.induct)
  case (1 q)
  show ?case
  proof (cases "2 * q < 1")
    case True
    then have "1 \<le> 2 * q * 2 ^ lg_down (2 * q) \<and> 2 * q * 2 ^ lg_down (2 * q) < 2"
      using "1.IH" "1.prems" by simp
    then show ?thesis using "1.prems" by (simp add: lg_down.simps [of q] mult_ac)
  next
    case False
    then have "lg_down (2 * q) = 0" by (simp add: lg_down.simps)
    then show ?thesis using False "1.prems" by (simp add: lg_down.simps [of q])
  qed
qed

lemma lg_bounds:
  assumes "0 < q"
  shows "2 powi lg q \<le> q" and "q < 2 powi (lg q + 1)"
proof -
  show "2 powi lg q \<le> q"
  proof (cases "1 \<le> q")
    case True
    then show ?thesis using lg_up_bounds [of q] by (simp add: lg_def power_int_def)
  next
    case False
    then have "1 \<le> q * 2 ^ lg_down q" using lg_down_bounds [of q] assms by simp
    then have "1 / 2 ^ lg_down q \<le> q" by (simp add: pos_divide_le_eq)
    moreover have "(2::rat) powi (- int (lg_down q)) = 1 / 2 ^ lg_down q"
      by (simp add: power_int_minus field_simps)
    ultimately show ?thesis using False by (simp add: lg_def)
  qed
  show "q < 2 powi (lg q + 1)"
  proof (cases "1 \<le> q")
    case True
    then have "q < 2 ^ Suc (lg_up q)" using lg_up_bounds [of q] by simp
    moreover have "(2::rat) powi (int (lg_up q) + 1) = 2 ^ Suc (lg_up q)"
      by (simp add: power_int_add)
    ultimately show ?thesis using True by (simp add: lg_def)
  next
    case False
    then have "q * 2 ^ lg_down q < 2" using lg_down_bounds [of q] assms by simp
    then have "q < 2 / 2 ^ lg_down q" by (simp add: pos_less_divide_eq)
    moreover have "(2::rat) powi (- int (lg_down q) + 1) = 2 / 2 ^ lg_down q"
    proof -
      have "(2::rat) powi (- int (lg_down q) + 1) = 2 powi (- int (lg_down q)) * 2 powi 1"
        by (rule power_int_add) simp
      then show ?thesis by (simp add: power_int_minus field_simps)
    qed
    ultimately show ?thesis using False by (simp add: lg_def)
  qed
qed

subsection \<open>Rounding to an integer\<close>

lemma rne_ge_floor: "\<lfloor>t\<rfloor> \<le> rne t"
  by (simp add: rne_def Let_def)

lemma rne_le_ceiling: "rne t \<le> \<lceil>t\<rceil>"
proof -
  have "\<lfloor>t\<rfloor> + 1 \<le> \<lceil>t\<rceil>" if "t - of_int \<lfloor>t\<rfloor> \<noteq> 0"
    using that by (metis add.commute ceiling_altdef diff_eq_eq floor_of_int of_int_floor_cancel
        order_refl add_0)
  moreover have "\<lfloor>t\<rfloor> \<le> \<lceil>t\<rceil>" by (rule floor_le_ceiling)
  ultimately show ?thesis
    by (auto simp: rne_def Let_def)
qed

lemma rne_of_int: "rne (of_int z) = z"
  by (simp add: rne_def Let_def)

subsection \<open>Rounding a positive rational\<close>

lemma ulp_exp_ge: "- 1074 \<le> ulp_exp q"
  by (simp add: ulp_exp_def)

lemma round_core_pos:
  "0 < q \<Longrightarrow> round_core q = of_int (rne (q / 2 powi ulp_exp q)) * 2 powi ulp_exp q"
  by (simp add: round_core_def)

lemma scaled_lt:
  assumes "0 < q"
  shows "q / 2 powi ulp_exp q < 2 ^ 53"
proof -
  have "lg q + 1 \<le> ulp_exp q + 53" using assms by (simp add: ulp_exp_def)
  then have "(2::rat) powi (lg q + 1) \<le> 2 powi (ulp_exp q + 53)"
    by (intro power_int_increasing) simp_all
  also have "\<dots> = 2 powi ulp_exp q * 2 powi 53"
    by (rule power_int_add) simp
  finally have "q < 2 powi ulp_exp q * 2 ^ 53"
    using lg_bounds(2) [OF assms] by simp
  then show ?thesis by (simp add: pos_divide_less_eq mult.commute)
qed

lemma scaled_ge:
  assumes "0 < q" "- 1074 < ulp_exp q"
  shows "2 ^ 52 \<le> q / 2 powi ulp_exp q"
proof -
  have e: "ulp_exp q + 52 = lg q" using assms by (simp add: ulp_exp_def max_def split: if_splits)
  have "(2::rat) powi (ulp_exp q + 52) = 2 powi ulp_exp q * 2 powi 52"
    by (rule power_int_add) simp
  then have "2 powi ulp_exp q * 2 ^ 52 \<le> q"
    using lg_bounds(1) [OF assms(1)] e by simp
  then show ?thesis by (simp add: pos_le_divide_eq mult.commute)
qed

lemma coarse_multiple:
  assumes "e \<le> k"
  shows "of_int m * (2::rat) powi k = of_int (m * 2 ^ nat (k - e)) * 2 powi e"
proof -
  have "(2::rat) powi k = 2 powi (k - e) * 2 powi e"
    using power_int_add [of "2::rat" "k - e" e] by simp
  moreover have "(2::rat) powi (k - e) = 2 ^ nat (k - e)"
    using assms by (simp add: power_int_def)
  ultimately show ?thesis by simp
qed

lemma fine_bound:
  assumes "k < e" "0 < m" "m \<le> 2 ^ 53"
  shows "of_int m * (2::rat) powi k \<le> 2 ^ 52 * 2 powi e"
proof -
  have "(2::rat) powi k \<le> 2 powi (e - 1)"
    using assms(1) by (intro power_int_increasing) simp_all
  moreover have "(of_int m :: rat) \<le> 2 ^ 53"
    using assms(3) by (metis of_int_le_iff of_int_numeral of_int_power)
  ultimately have "of_int m * (2::rat) powi k \<le> 2 ^ 53 * 2 powi (e - 1)"
    using assms(2) by (intro mult_mono) simp_all
  also have "(2::rat) powi (e - 1) = 2 powi e * 2 powi (- 1)"
    using power_int_add [of "2::rat" e "- 1"] by simp
  also have "2 ^ 53 * (2 powi e * 2 powi (- 1)) = 2 ^ 52 * (2::rat) powi e"
    by (simp add: power_int_minus)
  finally show ?thesis .
qed

lemma pos_lower:
  assumes q: "0 < q" and m: "0 < m" "m \<le> 2 ^ 53" and k: "- 1074 \<le> k"
    and le: "of_int m * 2 powi k \<le> q"
  shows "of_int m * 2 powi k \<le> round_core q"
proof -
  let ?e = "ulp_exp q"
  let ?u = "(2::rat) powi ?e"
  let ?t = "q / ?u"
  have u: "0 < ?u" by simp
  have rc: "round_core q = of_int (rne ?t) * ?u" using round_core_pos [OF q] .
  show ?thesis
  proof (cases "?e \<le> k")
    case True
    let ?N = "m * 2 ^ nat (k - ?e)"
    have d: "of_int m * 2 powi k = of_int ?N * ?u" using coarse_multiple [OF True] .
    have "of_int ?N * ?u \<le> q" using le unfolding d .
    then have "of_int ?N \<le> ?t" by (simp only: pos_le_divide_eq [OF u])
    then have "?N \<le> \<lfloor>?t\<rfloor>" by (simp add: le_floor_iff)
    then have "?N \<le> rne ?t" using rne_ge_floor [of ?t] by linarith
    then have "(of_int ?N :: rat) \<le> of_int (rne ?t)" by (simp only: of_int_le_iff)
    then have "of_int ?N * ?u \<le> of_int (rne ?t) * ?u"
      using u by (intro mult_right_mono) simp_all
    then show ?thesis unfolding d rc .
  next
    case False
    then have f: "k < ?e" by simp
    then have "- 1074 < ?e" using k by simp
    then have "2 ^ 52 \<le> ?t" using scaled_ge [OF q] by simp
    then have "(2 ^ 52 :: int) \<le> \<lfloor>?t\<rfloor>" by (simp add: le_floor_iff)
    then have "(2 ^ 52 :: int) \<le> rne ?t" using rne_ge_floor [of ?t] by linarith
    then have "(2 ^ 52 :: rat) \<le> of_int (rne ?t)"
      by (metis of_int_le_iff of_int_numeral of_int_power)
    then have "2 ^ 52 * ?u \<le> of_int (rne ?t) * ?u"
      using u by (intro mult_right_mono) simp_all
    from order_trans [OF fine_bound [OF f m] this] show ?thesis unfolding rc .
  qed
qed

lemma pos_upper:
  assumes q: "0 < q" and m: "0 < m" "m \<le> 2 ^ 53" and k: "- 1074 \<le> k"
    and le: "q \<le> of_int m * 2 powi k"
  shows "round_core q \<le> of_int m * 2 powi k"
proof -
  let ?e = "ulp_exp q"
  let ?u = "(2::rat) powi ?e"
  let ?t = "q / ?u"
  have u: "0 < ?u" by simp
  have rc: "round_core q = of_int (rne ?t) * ?u" using round_core_pos [OF q] .
  show ?thesis
  proof (cases "?e \<le> k")
    case True
    let ?N = "m * 2 ^ nat (k - ?e)"
    have d: "of_int m * 2 powi k = of_int ?N * ?u" using coarse_multiple [OF True] .
    have "q \<le> of_int ?N * ?u" using le unfolding d .
    then have "?t \<le> of_int ?N" by (simp only: pos_divide_le_eq [OF u])
    then have "\<lceil>?t\<rceil> \<le> ?N" by (simp add: ceiling_le_iff)
    then have "rne ?t \<le> ?N" using rne_le_ceiling [of ?t] by linarith
    then have "(of_int (rne ?t) :: rat) \<le> of_int ?N" by (simp only: of_int_le_iff)
    then have "of_int (rne ?t) * ?u \<le> of_int ?N * ?u"
      using u by (intro mult_right_mono) simp_all
    then show ?thesis unfolding d rc .
  next
    case False
    then have f: "k < ?e" by simp
    then have "- 1074 < ?e" using k by simp
    then have "2 ^ 52 \<le> ?t" using scaled_ge [OF q] by simp
    then have "2 ^ 52 * ?u \<le> q" using u by (simp add: pos_le_divide_eq)
    moreover have "q \<le> 2 ^ 52 * ?u" using fine_bound [OF f m] le by simp
    ultimately have "q = 2 ^ 52 * ?u" by simp
    then have "?t = 2 ^ 52"
      using u by (metis less_irrefl nonzero_mult_div_cancel_right)
    then have "rne ?t = 2 ^ 52" using rne_of_int [of "2 ^ 52"] by simp
    then have "round_core q = 2 ^ 52 * ?u" unfolding rc by simp
    then show ?thesis using le \<open>q = 2 ^ 52 * ?u\<close> by (simp only:)
  qed
qed

subsection \<open>Rounding is faithful\<close>

lemma ulp_exp_neg: "ulp_exp (- q) = ulp_exp q"
  by (simp add: ulp_exp_def)

lemma round_core_neg: "round_core (- q) = - round_core q"
  by (simp add: round_core_def ulp_exp_neg)

lemma is_grid_neg: "is_grid d \<Longrightarrow> is_grid (- d)"
proof -
  assume "is_grid d"
  then obtain m k where "d = of_int m * 2 powi k" "\<bar>m\<bar> \<le> 2 ^ 53" "- 1074 \<le> k"
    unfolding is_grid_def by blast
  then have "- d = of_int (- m) * 2 powi k \<and> \<bar>- m\<bar> \<le> 2 ^ 53 \<and> - 1074 \<le> k" by simp
  then show ?thesis unfolding is_grid_def by blast
qed

lemma is_grid_double: "is_grid d \<Longrightarrow> is_grid (2 * d)"
proof -
  assume "is_grid d"
  then obtain m k where mk: "d = of_int m * 2 powi k" "\<bar>m\<bar> \<le> 2 ^ 53" "- 1074 \<le> k"
    unfolding is_grid_def by blast
  have "(2::rat) powi (k + 1) = 2 powi k * 2 powi 1" by (rule power_int_add) simp
  then have "2 * d = of_int m * 2 powi (k + 1)" using mk(1) by simp
  moreover have "- 1074 \<le> k + 1" using mk(3) by simp
  ultimately show ?thesis unfolding is_grid_def using mk(2) by blast
qed

lemma is_grid_int: "\<bar>z\<bar> \<le> 2 ^ 53 \<Longrightarrow> is_grid (of_int z)"
proof -
  assume "\<bar>z\<bar> \<le> 2 ^ 53"
  moreover have "(of_int z :: rat) = of_int z * 2 powi 0" by simp
  ultimately show ?thesis unfolding is_grid_def by (metis neg_numeral_le_zero)
qed

lemma is_grid_pow: "0 \<le> k \<Longrightarrow> is_grid (2 powi k)"
proof -
  assume "0 \<le> k"
  then have "- 1074 \<le> k" by simp
  moreover have "(2::rat) powi k = of_int 1 * 2 powi k" by simp
  moreover have "\<bar>1::int\<bar> \<le> 2 ^ 53" by simp
  ultimately show ?thesis unfolding is_grid_def by blast
qed

lemma round_core_nonneg: "0 \<le> q \<Longrightarrow> 0 \<le> round_core q"
proof (cases "q = 0")
  case True
  then show ?thesis by (simp add: round_core_def)
next
  case False
  assume "0 \<le> q"
  then have q: "0 < q" using False by simp
  have "0 \<le> q / 2 powi ulp_exp q" using q by simp
  then have "0 \<le> \<lfloor>q / 2 powi ulp_exp q\<rfloor>" by simp
  then have "0 \<le> rne (q / 2 powi ulp_exp q)"
    using rne_ge_floor [of "q / 2 powi ulp_exp q"] by linarith
  then show ?thesis unfolding round_core_pos [OF q] by simp
qed

lemma round_core_lower:
  assumes "is_grid d" "d \<le> q"
  shows "d \<le> round_core q"
proof -
  obtain m k where mk: "d = of_int m * 2 powi k" "\<bar>m\<bar> \<le> 2 ^ 53" "- 1074 \<le> k"
    using assms(1) unfolding is_grid_def by blast
  have p: "0 < (2::rat) powi k" by simp
  consider "q = 0" | "0 < q" "d \<le> 0" | "0 < q" "0 < d" | "q < 0" by linarith
  then show ?thesis
  proof cases
    case 1
    then show ?thesis using assms(2) by (simp add: round_core_def)
  next
    case 2
    then show ?thesis using round_core_nonneg [of q] by simp
  next
    case 3
    then have "0 < m" using mk(1) p by (simp add: zero_less_mult_iff)
    then show ?thesis
      using pos_lower [OF 3(1) _ _ mk(3), of m] mk(1,2) assms(2) by simp
  next
    case 4
    then have "d < 0" using assms(2) by simp
    then have "m < 0" using mk(1) p by (simp add: mult_less_0_iff)
    then have m: "0 < - m" "- m \<le> 2 ^ 53" using mk(2) by simp_all
    have "- q \<le> of_int (- m) * 2 powi k" using assms(2) mk(1) by simp
    from pos_upper [OF _ m mk(3) this] 4
    have "round_core (- q) \<le> of_int (- m) * 2 powi k" by simp
    then show ?thesis using mk(1) by (simp add: round_core_neg)
  qed
qed

lemma round_core_upper:
  assumes "is_grid d" "q \<le> d"
  shows "round_core q \<le> d"
proof -
  have "- d \<le> round_core (- q)"
    using round_core_lower [OF is_grid_neg [OF assms(1)], of "- q"] assms(2) by simp
  then show ?thesis by (simp add: round_core_neg)
qed

lemma round_core_grid: "is_grid (round_core q)"
proof -
  have pos: "is_grid (round_core q)" if q: "0 < q" for q
  proof -
    let ?t = "q / 2 powi ulp_exp q"
    have "?t \<le> 2 ^ 53" using scaled_lt [OF q] by simp
    then have "?t \<le> of_int (2 ^ 53)" by simp
    then have "\<lceil>?t\<rceil> \<le> 2 ^ 53" by (simp only: ceiling_le_iff)
    then have "rne ?t \<le> 2 ^ 53" using rne_le_ceiling [of ?t] by linarith
    moreover have "0 \<le> ?t" using q by simp
    then have "0 \<le> \<lfloor>?t\<rfloor>" by simp
    then have "0 \<le> rne ?t" using rne_ge_floor [of ?t] by linarith
    ultimately have "\<bar>rne ?t\<bar> \<le> 2 ^ 53" by simp
    then show ?thesis
      unfolding is_grid_def round_core_pos [OF q] using ulp_exp_ge [of q] by blast
  qed
  consider "q = 0" | "0 < q" | "q < 0" by linarith
  then show ?thesis
  proof cases
    case 1
    then show ?thesis using is_grid_int [of 0] by (simp add: round_core_def)
  next
    case 2
    then show ?thesis by (rule pos)
  next
    case 3
    then have "is_grid (round_core (- q))" using pos [of "- q"] by simp
    then show ?thesis using is_grid_neg [of "round_core (- q)"] by (simp add: round_core_neg)
  qed
qed

lemma round_core_fix: "is_grid d \<Longrightarrow> round_core d = d"
  using round_core_lower [of d d] round_core_upper [of d d] by simp

lemma is_double_iff: "is_double q \<longleftrightarrow> round_core q = q \<and> \<bar>q\<bar> < 2 ^ 1024"
  by (auto simp: is_double_def round_double_def Let_def)

lemma is_double_grid: "is_double q \<Longrightarrow> is_grid q"
  using round_core_grid [of q] by (simp add: is_double_iff)

lemma grid_is_double: "is_grid q \<Longrightarrow> \<bar>q\<bar> < 2 ^ 1024 \<Longrightarrow> is_double q"
  by (simp add: is_double_iff round_core_fix)

lemma round_double_between:
  assumes "is_double lo" "is_double hi" "lo \<le> q" "q \<le> hi"
  shows "\<exists>m. round_double q = Fin m \<and> lo \<le> m \<and> m \<le> hi \<and> is_double m"
proof -
  let ?m = "round_core q"
  have lo: "lo \<le> ?m" using round_core_lower [OF is_double_grid [OF assms(1)] assms(3)] .
  have hi: "?m \<le> hi" using round_core_upper [OF is_double_grid [OF assms(2)] assms(4)] .
  have b: "\<bar>?m\<bar> < 2 ^ 1024"
    using lo hi assms(1,2) by (simp add: is_double_iff abs_less_iff)
  then have "round_double q = Fin ?m" by (simp add: round_double_def Let_def abs_less_iff)
  moreover have "is_double ?m" using grid_is_double [OF round_core_grid b] .
  ultimately show ?thesis using lo hi by blast
qed

lemma midpoint_between:
  assumes "is_double l" "is_double r" "l \<le> r" "js_add (Fin l) (Fin r) = Fin s"
  shows "\<exists>m. midpoint (Fin l) (Fin r) = Fin m \<and> l \<le> m \<and> m \<le> r \<and> is_double m"
proof -
  have rd: "round_double (l + r) = Fin s" using assms(4) by simp
  then have s: "s = round_core (l + r)"
    by (simp add: round_double_def Let_def split: if_splits)
  have "2 * l \<le> s"
    unfolding s using assms(3)
    by (intro round_core_lower is_grid_double is_double_grid [OF assms(1)]) simp
  moreover have "s \<le> 2 * r"
    unfolding s using assms(3)
    by (intro round_core_upper is_grid_double is_double_grid [OF assms(2)]) simp
  ultimately have "l \<le> s / 2" "s / 2 \<le> r" by simp_all
  from round_double_between [OF assms(1,2) this]
  show ?thesis unfolding midpoint_def assms(4) js_half.simps .
qed

lemma js_add_finite:
  assumes "is_double l" "is_double r" "\<bar>l\<bar> \<le> 2 ^ 1022" "\<bar>r\<bar> \<le> 2 ^ 1022"
  shows "\<exists>s. js_add (Fin l) (Fin r) = Fin s"
proof -
  have g: "is_grid (2 powi 1023)" by (rule is_grid_pow) simp
  have p: "(2::rat) powi 1023 = 2 ^ 1023" by (simp add: power_int_def)
  have "(2::rat) ^ 1023 = 2 * 2 ^ 1022" by simp
  then have b: "- (2 ^ 1023) \<le> l + r" "l + r \<le> 2 ^ 1023"
    using assms(3,4) by (simp_all add: abs_le_iff)
  have "round_core (l + r) \<le> 2 ^ 1023"
    using round_core_upper [OF g] b(2) p by simp
  moreover have "- (2 ^ 1023) \<le> round_core (l + r)"
    using round_core_lower [OF is_grid_neg [OF g]] b(1) p by simp
  moreover have "(2::rat) ^ 1023 < 2 ^ 1024" by simp
  ultimately show ?thesis
    by (simp add: round_double_def Let_def)
qed

lemma round_double_overflow: "is_grid q \<Longrightarrow> 2 ^ 1024 \<le> q \<Longrightarrow> round_double q = PosInf"
  by (simp add: round_double_def round_core_fix Let_def)

lemma is_double_int: "\<bar>z\<bar> \<le> 2 ^ 53 \<Longrightarrow> is_double (of_int z)"
proof -
  assume z: "\<bar>z\<bar> \<le> 2 ^ 53"
  then have "\<bar>of_int z :: rat\<bar> \<le> 2 ^ 53"
    by (metis of_int_abs of_int_le_iff of_int_numeral of_int_power)
  moreover have "(2::rat) ^ 53 < 2 ^ 1024" by simp
  ultimately have "\<bar>of_int z :: rat\<bar> < 2 ^ 1024" by linarith
  then show ?thesis using grid_is_double [OF is_grid_int [OF z]] by simp
qed

lemma mid_overflow: "midpoint (Fin (2 ^ 1023)) (Fin (3 * 2 ^ 1022)) = PosInf"
proof -
  have g: "is_grid (of_int 5 * 2 powi 1022)"
    unfolding is_grid_def by (intro exI [of _ 5] exI [of _ 1022]) simp
  have e: "(2::rat) ^ 1023 + 3 * 2 ^ 1022 = of_int 5 * 2 powi 1022"
    by (simp add: power_int_def)
  have "(2::rat) ^ 1024 \<le> of_int 5 * 2 powi 1022"
    by (simp add: power_int_def)
  then have "round_double (2 ^ 1023 + 3 * 2 ^ 1022) = PosInf"
    unfolding e using round_double_overflow [OF g] by simp
  then show ?thesis by (simp add: midpoint_def)
qed

section \<open>Basic facts\<close>

lemma intersects_point:
  "intersects (PointObj p) b \<longleftrightarrow>
     num_le (left b) (x p) \<and> num_le (x p) (right b) \<and>
     num_le (top_b b) (y p) \<and> num_le (y p) (bottom b)"
  by (auto simp: intersects_def)

lemma intersects_rect: "intersects (RectObj r) b = False"
  by (simp add: intersects_def)

lemma queryRange_found: "queryRange r t found = found"
  by (cases t) (simp add: intersects_rect)

lemma findCommonPoints_acc: "findCommonPoints t other acc = acc"
  by (cases t) (simp add: intersects_rect)

lemma insert_qt_outside:
  "\<not> intersects (PointObj p) (bounds t) \<Longrightarrow> insert_qt p t = (False, t)"
  by (cases t) simp

lemma insert_qt_header:
  "bounds (snd (insert_qt p t)) = bounds t"
  "maxItems (snd (insert_qt p t)) = maxItems t"
  "depth (snd (insert_qt p t)) = depth t"
  by (cases t; simp split: prod.splits)+

lemma insert_qt_store:
  "intersects (PointObj p) b \<Longrightarrow> length ps < m \<Longrightarrow> 0 < d \<Longrightarrow>
   insert_qt p (QuadTree b m d ps cs) = (True, QuadTree b m d (ps @ [p]) cs)"
  by simp

lemma insert_qt_delegate:
  "intersects (PointObj p) b \<Longrightarrow> \<not> (length ps < m \<and> 0 < d) \<Longrightarrow>
   insert_qt p (QuadTree b m d ps cs) =
     (fst (insert_some p (expand (QuadTree b m d ps cs))),
      QuadTree b m d ps (snd (insert_some p (expand (QuadTree b m d ps cs)))))"
  by (simp add: expand_def split: prod.splits)

lemma insert_some_Cons:
  "insert_some p (c # cs) =
     (if fst (insert_qt p c) then (True, snd (insert_qt p c) # cs)
      else (fst (insert_some p cs), snd (insert_qt p c) # snd (insert_some p cs)))"
  by (simp split: prod.splits)

lemma insert_all_Cons:
  "insert_all (p # ps) t =
     (fst (insert_qt p t) # fst (insert_all ps (snd (insert_qt p t))),
      snd (insert_all ps (snd (insert_qt p t))))"
  by (simp split: prod.splits)

lemma children_subdivide:
  "children t = [] \<Longrightarrow> 0 < depth t \<Longrightarrow>
   children (subdivide t) =
     map (\<lambda>q. QuadTree_new q (maxItems t) (depth t - 1)) (quadrants (bounds t))"
  by (simp add: subdivide_def quadrants_def midX_def midY_def Let_def)

lemma subdivide_depth0: "depth t = 0 \<Longrightarrow> subdivide t = t"
  by (simp add: subdivide_def)

lemma expand_cases:
  "expand (QuadTree b m d ps cs) =
     (if cs \<noteq> [] then cs
      else if d = 0 then []
      else map (\<lambda>q. QuadTree_new q m (d - 1)) (quadrants b))"
  by (simp add: expand_def subdivide_def quadrants_def midX_def midY_def Let_def)

lemma expand_Nil: "expand (QuadTree b m d ps cs) = [] \<longleftrightarrow> cs = [] \<and> d = 0"
  by (auto simp: expand_cases quadrants_def)

lemma insert_some_length: "length (snd (insert_some p cs)) = length cs"
  by (induction cs) (simp_all add: insert_some_Cons del: insert_some.simps(2))

lemma insert_some_map:
  "map bounds (snd (insert_some p cs)) = map bounds cs"
  "map maxItems (snd (insert_some p cs)) = map maxItems cs"
  "map depth (snd (insert_some p cs)) = map depth cs"
  by (induction cs;
      simp add: insert_some_Cons insert_qt_header del: insert_some.simps(2))+

section \<open>How many inserts of a point a tree accepts\<close>

lemma room_new: "room p (QuadTree_new b m d) = fresh_room p b m d"
  by (cases d) (simp_all add: QuadTree_new_def)

lemma room_expand:
  "intersects (PointObj p) b \<Longrightarrow> \<not> (length ps < m \<and> 0 < d) \<Longrightarrow>
   room p (QuadTree b m d ps cs) = sum_list (map (room p) (expand (QuadTree b m d ps cs)))"
  by (cases d) (auto simp: expand_cases room_new comp_def)

lemma room_step:
  "fst (insert_qt p t) = (0 < room p t) \<and> room p (snd (insert_qt p t)) = room p t - 1"
  "fst (insert_some p cs) = (0 < sum_list (map (room p) cs)) \<and>
   sum_list (map (room p) (snd (insert_some p cs))) = sum_list (map (room p) cs) - 1"
proof (induction p t and p cs rule: insert_qt_insert_some.induct)
  case (1 p b m d ps cs)
  let ?t = "QuadTree b m d ps cs"
  show ?case
  proof (cases "intersects (PointObj p) b")
    case False
    then show ?thesis by simp
  next
    case inb: True
    show ?thesis
    proof (cases "length ps < m \<and> 0 < d")
      case True
      then show ?thesis using inb by auto
    next
      case False
      let ?cs0 = "expand ?t"
      let ?cs' = "snd (insert_some p ?cs0)"
      have ih: "fst (insert_some p ?cs0) = (0 < sum_list (map (room p) ?cs0)) \<and>
          sum_list (map (room p) ?cs') = sum_list (map (room p) ?cs0) - 1"
        using "1" [OF _ False] inb by (simp add: expand_def)
      have r: "room p ?t = sum_list (map (room p) ?cs0)"
        using room_expand [OF inb False] .
      have e: "?cs' = [] \<longleftrightarrow> cs = [] \<and> d = 0"
        using insert_some_length [of p ?cs0] expand_Nil [of b m d ps cs]
        by (metis length_0_conv)
      have r': "room p (QuadTree b m d ps ?cs') = sum_list (map (room p) ?cs')"
        using inb False e by (cases "?cs' = []") auto
      have eq: "insert_qt p ?t = (fst (insert_some p ?cs0), QuadTree b m d ps ?cs')"
        by (rule insert_qt_delegate [OF inb False])
      show ?thesis
        unfolding eq fst_conv snd_conv r r' using ih .
    qed
  qed
next
  case (2 p)
  show ?case by simp
next
  case (3 p c cs)
  show ?case
  proof (cases "fst (insert_qt p c)")
    case True
    then show ?thesis using "3.IH"(1)
      by (auto simp add: insert_some_Cons simp del: insert_some.simps(2))
  next
    case False
    then have "fst (insert_some p cs) = (0 < sum_list (map (room p) cs)) \<and>
        sum_list (map (room p) (snd (insert_some p cs))) = sum_list (map (room p) cs) - 1"
      using "3.IH"(2) [of "fst (insert_qt p c)" "snd (insert_qt p c)"]
      by (metis prod.collapse)
    then show ?thesis using False "3.IH"(1)
      by (auto simp add: insert_some_Cons simp del: insert_some.simps(2))
  qed
qed

lemma insert_all_replicate:
  "fst (insert_all (replicate k p) t) =
     replicate (min k (room p t)) True @ replicate (k - room p t) False"
proof (induction k arbitrary: t)
  case 0
  show ?case by simp
next
  case (Suc k)
  let ?t' = "snd (insert_qt p t)"
  have ok: "fst (insert_qt p t) = (0 < room p t)" and r: "room p ?t' = room p t - 1"
    using room_step(1) [of p t] by simp_all
  show ?case
  proof (cases "room p t")
    case 0
    then show ?thesis using Suc.IH [of ?t'] ok r
      by (simp add: insert_all_Cons del: insert_all.simps(2))
  next
    case (Suc n)
    then show ?thesis using Suc.IH [of ?t'] ok r
      by (simp add: insert_all_Cons del: insert_all.simps(2))
  qed
qed

lemma fresh_room_outside: "\<not> intersects (PointObj p) b \<Longrightarrow> fresh_room p b m d = 0"
  by (cases d) simp_all

lemma strictly_inside_intersects: "strictly_inside p q \<Longrightarrow> intersects (PointObj p) q"
  by (simp add: strictly_inside_def intersects_point num_lt_le)

lemma strictly_inside_others:
  assumes "strictly_inside p (quadrants b ! i)" "i < 4" "j < 4" "i \<noteq> j"
  shows "\<not> intersects (PointObj p) (quadrants b ! j)"
proof -
  have i: "i = 0 \<or> i = Suc 0 \<or> i = 2 \<or> i = 3" and j: "j = 0 \<or> j = Suc 0 \<or> j = 2 \<or> j = 3"
    using assms(2,3) by auto
  have nth: "quadrants b ! 0 = \<lparr>left = left b, top_b = top_b b, right = midX b, bottom = midY b\<rparr>"
    "quadrants b ! Suc 0 = \<lparr>left = midX b, top_b = top_b b, right = right b, bottom = midY b\<rparr>"
    "quadrants b ! 2 = \<lparr>left = left b, top_b = midY b, right = midX b, bottom = bottom b\<rparr>"
    "quadrants b ! 3 = \<lparr>left = midX b, top_b = midY b, right = right b, bottom = bottom b\<rparr>"
    by (simp_all add: quadrants_def numeral_2_eq_2 numeral_3_eq_3)
  show ?thesis
    using i j assms(1,4) num_lt_not_le [of "x p" "midX b"] num_lt_not_le [of "midX b" "x p"]
      num_lt_not_le [of "y p" "midY b"] num_lt_not_le [of "midY b" "y p"]
    by (elim disjE; simp add: nth strictly_inside_def intersects_point; blast)
qed

lemma sum_one_quadrant:
  assumes "i < 4" "f (quadrants b ! i) = (d::nat)"
    and "\<And>j. j < 4 \<Longrightarrow> j \<noteq> i \<Longrightarrow> f (quadrants b ! j) = 0"
  shows "sum_list (map f (quadrants b)) = d"
proof -
  have q: "quadrants b = [quadrants b ! 0, quadrants b ! 1, quadrants b ! 2, quadrants b ! 3]"
    by (simp add: quadrants_def numeral_2_eq_2 numeral_3_eq_3)
  have s: "sum_list (map f (quadrants b)) =
      f (quadrants b ! 0) + f (quadrants b ! 1) + f (quadrants b ! 2) + f (quadrants b ! 3)"
    by (subst q) simp
  have i: "i = 0 \<or> i = 1 \<or> i = 2 \<or> i = 3" using assms(1) by auto
  show ?thesis
    unfolding s using i assms(2) assms(3) [of 0] assms(3) [of 1] assms(3) [of 2] assms(3) [of 3]
    by (elim disjE) simp_all
qed

lemma fresh_room_inside:
  "intersects (PointObj p) b \<Longrightarrow> inside_one_quadrant p b d \<Longrightarrow> fresh_room p b 1 d = d"
proof (induction d arbitrary: b)
  case 0
  show ?case by simp
next
  case (Suc d)
  from Suc.prems(2) obtain q where q: "q \<in> set (quadrants b)" "strictly_inside p q"
    "inside_one_quadrant p q d"
    by (auto simp: list_ex_iff)
  have "length (quadrants b) = 4" by (simp add: quadrants_def)
  then obtain i where i: "i < 4" "quadrants b ! i = q"
    using q(1) by (metis in_set_conv_nth)
  have here: "fresh_room p (quadrants b ! i) 1 d = d"
    using Suc.IH [of q] strictly_inside_intersects [OF q(2)] q(3) i(2) by simp
  have others: "fresh_room p (quadrants b ! j) 1 d = 0" if "j < 4" "j \<noteq> i" for j
    using strictly_inside_others [of p b i j] q(2) i that
    by (simp add: fresh_room_outside)
  have "sum_list (map (\<lambda>q. fresh_room p q 1 d) (quadrants b)) = d"
    using sum_one_quadrant [of i "\<lambda>q. fresh_room p q 1 d" b d, OF i(1) here others] .
  then show ?case using Suc.prems(1) by simp
qed

section \<open>The shape of the trees the program builds\<close>

lemma tree_inv_new: "tree_inv (QuadTree_new b m d)"
  by (simp add: QuadTree_new_def)

lemma insert_some_fields:
  "c' \<in> set (snd (insert_some p cs)) \<Longrightarrow>
   \<exists>c \<in> set cs. bounds c' = bounds c \<and> maxItems c' = maxItems c \<and> depth c' = depth c"
proof (induction cs arbitrary: c')
  case Nil
  then show ?case by simp
next
  case (Cons a cs)
  then show ?case
    by (auto simp add: insert_some_Cons insert_qt_header simp del: insert_some.simps(2)
        split: if_splits)
qed

lemma tree_inv_expand:
  assumes "tree_inv (QuadTree b m d ps cs)"
  shows "\<forall>c \<in> set (expand (QuadTree b m d ps cs)). tree_inv c"
    and "expand (QuadTree b m d ps cs) \<noteq> [] \<Longrightarrow>
         map bounds (expand (QuadTree b m d ps cs)) = quadrants b"
    and "\<forall>c \<in> set (expand (QuadTree b m d ps cs)). maxItems c = m \<and> Suc (depth c) = d"
  using assms by (auto simp: expand_cases QuadTree_new_def comp_def)

lemma tree_inv_insert:
  "tree_inv t \<Longrightarrow> tree_inv (snd (insert_qt p t))"
  "(\<forall>c \<in> set cs. tree_inv c) \<Longrightarrow> (\<forall>c \<in> set (snd (insert_some p cs)). tree_inv c)"
proof (induction p t and p cs rule: insert_qt_insert_some.induct)
  case (1 p b m d ps cs)
  let ?t = "QuadTree b m d ps cs"
  show ?case
  proof (cases "intersects (PointObj p) b")
    case False
    then show ?thesis using "1.prems" by simp
  next
    case inb: True
    show ?thesis
    proof (cases "length ps < m \<and> 0 < d")
      case True
      then show ?thesis using inb "1.prems" by simp
    next
      case False
      let ?cs0 = "expand ?t"
      let ?cs' = "snd (insert_some p ?cs0)"
      have eq: "insert_qt p ?t = (fst (insert_some p ?cs0), QuadTree b m d ps ?cs')"
        by (rule insert_qt_delegate [OF inb False])
      have ih: "\<forall>c \<in> set ?cs'. tree_inv c"
        using "1.IH" [OF _ False] inb tree_inv_expand(1) [OF "1.prems"]
        by (simp add: expand_def)
      have d0: "d = 0 \<longrightarrow> ps = [] \<and> ?cs' = []"
        using "1.prems" insert_some_length [of p ?cs0] expand_Nil [of b m d ps cs] by auto
      have bs: "?cs' \<noteq> [] \<longrightarrow> map bounds ?cs' = quadrants b"
        using tree_inv_expand(2) [OF "1.prems"] insert_some_map(1) [of p ?cs0]
          insert_some_length [of p ?cs0] by (metis length_0_conv)
      have fs: "\<forall>c \<in> set ?cs'. maxItems c = m \<and> Suc (depth c) = d"
        using tree_inv_expand(3) [OF "1.prems"] insert_some_fields [of _ p ?cs0] by metis
      show ?thesis
        unfolding eq snd_conv tree_inv.simps using ih d0 bs fs by blast
    qed
  qed
next
  case (2 p)
  show ?case by simp
next
  case (3 p c cs)
  show ?case
  proof (cases "fst (insert_qt p c)")
    case True
    then show ?thesis using "3.IH"(1) "3.prems"
      by (auto simp add: insert_some_Cons simp del: insert_some.simps(2))
  next
    case False
    then have "\<forall>c \<in> set (snd (insert_some p cs)). tree_inv c"
      using "3.IH"(2) [of "fst (insert_qt p c)" "snd (insert_qt p c)"] "3.prems"
      by (metis list.set_intros(2) prod.collapse)
    then show ?thesis using False "3.IH"(1) "3.prems"
      by (auto simp add: insert_some_Cons simp del: insert_some.simps(2))
  qed
qed

lemma tree_inv_insert_all: "tree_inv t \<Longrightarrow> tree_inv (snd (insert_all ps t))"
  by (induction ps arbitrary: t)
     (simp_all add: insert_all_Cons tree_inv_insert(1) del: insert_all.simps(2))

lemma insert_all_bounds: "bounds (snd (insert_all ps t)) = bounds t"
  by (induction ps arbitrary: t)
     (simp_all add: insert_all_Cons insert_qt_header del: insert_all.simps(2))

lemma tree_inv_build: "tree_inv (build b m d ps)"
  by (simp add: build_def tree_inv_insert_all tree_inv_new)

lemma bounds_build: "bounds (build b m d ps) = b"
  by (simp add: build_def insert_all_bounds QuadTree_new_def)

lemma tree_inv_nodes: "tree_inv t \<Longrightarrow> n \<in> set (nodes t) \<Longrightarrow> tree_inv n"
  by (induction t) auto

lemma tree_inv_children:
  "tree_inv n \<Longrightarrow> children n \<noteq> [] \<Longrightarrow> map bounds (children n) = quadrants (bounds n)"
  by (cases n) simp

lemma tree_inv_depth0:
  "tree_inv n \<Longrightarrow> depth n = 0 \<Longrightarrow> points n = [] \<and> children n = []"
  by (cases n) simp

subsection \<open>Midpoints of bounds with finite sums\<close>

lemma finite_doubleE: "finite_double a \<Longrightarrow> \<exists>q. a = Fin q \<and> is_double q"
  by (cases a) simp_all

lemma small_doubleE: "small_double a \<Longrightarrow> \<exists>q. a = Fin q \<and> is_double q \<and> \<bar>q\<bar> \<le> 2 ^ 1022"
  by (cases a) simp_all

lemma mid_finite:
  assumes "finite_double a" "finite_double b" "num_le a b" "finite_double (js_add a b)"
  shows "num_le a (midpoint a b) \<and> num_le (midpoint a b) b \<and> finite_double (midpoint a b)"
proof -
  obtain l where l: "a = Fin l" "is_double l" using finite_doubleE [OF assms(1)] by blast
  obtain r where r: "b = Fin r" "is_double r" using finite_doubleE [OF assms(2)] by blast
  obtain s where "js_add a b = Fin s" using finite_doubleE [OF assms(4)] by blast
  then have s: "js_add (Fin l) (Fin r) = Fin s" unfolding l(1) r(1) .
  have "l \<le> r" using assms(3) unfolding l(1) r(1) by simp
  from midpoint_between [OF l(2) r(2) this s]
  obtain m where m: "midpoint (Fin l) (Fin r) = Fin m" "l \<le> m" "m \<le> r" "is_double m"
    by blast
  show ?thesis unfolding l(1) r(1) m(1) using m(2,3,4) by simp
qed

lemma mid_between:
  assumes "wf_bounds b" "finite_sums b"
  shows "num_le (left b) (midX b) \<and> num_le (midX b) (right b) \<and>
         num_le (top_b b) (midY b) \<and> num_le (midY b) (bottom b)"
  using assms mid_finite [of "left b" "right b"] mid_finite [of "top_b b" "bottom b"]
  by (simp add: wf_bounds_def finite_sums_def midX_def midY_def midpoint_def)

lemma quadrants_wf_mid:
  assumes "wf_bounds b"
    and "num_le (left b) (midX b) \<and> num_le (midX b) (right b) \<and>
         num_le (top_b b) (midY b) \<and> num_le (midY b) (bottom b)"
    and "q \<in> set (quadrants b)"
  shows "wf_bounds q"
  using assms by (auto simp: wf_bounds_def quadrants_def)

lemma quadrants_wf: "wf_bounds b \<Longrightarrow> finite_sums b \<Longrightarrow> q \<in> set (quadrants b) \<Longrightarrow> wf_bounds q"
  using quadrants_wf_mid mid_between by blast

lemma small_sum:
  assumes "small_double a" "small_double b"
  shows "finite_double a \<and> finite_double b \<and> finite_double (js_add a b)"
proof -
  obtain l where l: "a = Fin l" "is_double l" "\<bar>l\<bar> \<le> 2 ^ 1022"
    using small_doubleE [OF assms(1)] by blast
  obtain r where r: "b = Fin r" "is_double r" "\<bar>r\<bar> \<le> 2 ^ 1022"
    using small_doubleE [OF assms(2)] by blast
  obtain s where s: "js_add (Fin l) (Fin r) = Fin s"
    using js_add_finite [OF l(2) r(2) l(3) r(3)] by blast
  then have rd: "round_double (l + r) = Fin s" by (simp only: js_add.simps)
  have "is_double s"
  proof -
    have "s = round_core (l + r) \<and> \<bar>round_core (l + r)\<bar> < 2 ^ 1024"
      using rd unfolding round_double_def Let_def
      by (simp only: abs_less_iff split: if_splits) auto
    then show ?thesis using grid_is_double [OF round_core_grid, of "l + r"] by (simp only:)
  qed
  then show ?thesis unfolding l(1) r(1) s using l(2) r(2) by (simp only: finite_double.simps simp_thms)
qed

lemma in_range_finite_sums: "in_range b \<Longrightarrow> finite_sums b"
  using small_sum [of "left b" "right b"] small_sum [of "top_b b" "bottom b"]
  by (simp add: in_range_def finite_sums_def)

lemma mid_small:
  assumes "small_double a" "small_double b" "num_le a b"
  shows "small_double (midpoint a b)"
proof -
  obtain l where l: "a = Fin l" "is_double l" "\<bar>l\<bar> \<le> 2 ^ 1022"
    using small_doubleE [OF assms(1)] by blast
  obtain r where r: "b = Fin r" "is_double r" "\<bar>r\<bar> \<le> 2 ^ 1022"
    using small_doubleE [OF assms(2)] by blast
  obtain s where s: "js_add (Fin l) (Fin r) = Fin s"
    using js_add_finite [OF l(2) r(2) l(3) r(3)] by blast
  have "l \<le> r" using assms(3) unfolding l(1) r(1) by simp
  from midpoint_between [OF l(2) r(2) this s]
  obtain m where m: "midpoint (Fin l) (Fin r) = Fin m" "l \<le> m" "m \<le> r" "is_double m"
    by blast
  have "\<bar>m\<bar> \<le> 2 ^ 1022" using m(2,3) l(3) r(3) by linarith
  then show ?thesis unfolding l(1) r(1) m(1) using m(4) by (simp only: small_double.simps simp_thms)
qed

lemma quadrants_in_range:
  assumes "wf_bounds b" "in_range b" "q \<in> set (quadrants b)"
  shows "in_range q"
proof -
  have "small_double (midX b)" "small_double (midY b)"
    using assms(1,2) mid_small [of "left b" "right b"] mid_small [of "top_b b" "bottom b"]
    by (simp_all add: in_range_def wf_bounds_def midX_def midY_def midpoint_def)
  then show ?thesis using assms(2,3) by (auto simp: in_range_def quadrants_def)
qed

lemma nodes_wf:
  "tree_inv t \<Longrightarrow> wf_bounds (bounds t) \<Longrightarrow> in_range (bounds t) \<Longrightarrow> n \<in> set (nodes t) \<Longrightarrow>
   wf_bounds (bounds n) \<and> in_range (bounds n)"
proof (induction t)
  case (QuadTree b m d ps cs)
  show ?case
  proof (cases "n = QuadTree b m d ps cs")
    case True
    then show ?thesis using QuadTree.prems by simp
  next
    case False
    then obtain c where c: "c \<in> set cs" "n \<in> set (nodes c)"
      using QuadTree.prems(4) by auto
    have "cs \<noteq> []" using c(1) by auto
    then have "map bounds cs = quadrants b" using QuadTree.prems(1) by simp
    then have q: "bounds c \<in> set (quadrants b)" using c(1) by (metis imageI list.set_map)
    have "wf_bounds b" "in_range b" using QuadTree.prems(2,3) by simp_all
    then have "wf_bounds (bounds c)" "in_range (bounds c)"
      using quadrants_wf [OF _ in_range_finite_sums q] quadrants_in_range [OF _ _ q] by blast+
    moreover have "tree_inv c" using c QuadTree.prems(1) by simp
    ultimately show ?thesis using QuadTree.IH [OF c(1)] c(2) by simp
  qed
qed

subsection \<open>Nodes without depth budget\<close>

lemma insert_qt_depth0:
  "depth t = 0 \<Longrightarrow> children t = [] \<Longrightarrow> insert_qt p t = (False, t)"
  by (cases t) (simp add: subdivide_def)

section \<open>What a rejected insert leaves behind\<close>

lemma list_all2_pick:
  "list_all2 R xs ys \<Longrightarrow> b \<in> set ys \<Longrightarrow> \<exists>a \<in> set xs. R a b"
  by (induction xs ys rule: list_all2_induct) auto

lemma only_grown_refl: "only_grown t t"
proof (induction t)
  case (QuadTree b m d ps cs)
  then have "list_all2 only_grown cs cs"
    by (simp add: list_all2_same)
  then show ?case by simp
qed

lemma empty_tree_new: "empty_tree (QuadTree_new b m d)"
  by (simp add: QuadTree_new_def)

lemma empty_tree_grown: "empty_tree t \<Longrightarrow> only_grown t t' \<Longrightarrow> empty_tree t'"
proof (induction t arbitrary: t')
  case (QuadTree b m d ps cs)
  obtain b' m' d' ps' cs' where t': "t' = QuadTree b' m' d' ps' cs'" by (cases t')
  have ps': "ps' = []" using QuadTree.prems t' by simp
  have "empty_tree c'" if "c' \<in> set cs'" for c'
  proof (cases "cs = []")
    case True
    then show ?thesis using QuadTree.prems(2) t' that by simp
  next
    case False
    then have "list_all2 only_grown cs cs'" using QuadTree.prems(2) t' by simp
    from list_all2_pick [OF this that]
    obtain c where c: "c \<in> set cs" "only_grown c c'" by blast
    have "empty_tree c" using QuadTree.prems(1) c(1) by simp
    then show ?thesis using QuadTree.IH [OF c(1) _ c(2)] by blast
  qed
  then show ?case using t' ps' by simp
qed

lemma expand_empty:
  "cs = [] \<Longrightarrow> \<forall>c \<in> set (expand (QuadTree b m d ps cs)). empty_tree c"
  by (simp add: expand_cases empty_tree_new)

lemma rejected_only_grown:
  "\<not> fst (insert_qt p t) \<Longrightarrow> only_grown t (snd (insert_qt p t))"
  "\<not> fst (insert_some p cs) \<Longrightarrow> list_all2 only_grown cs (snd (insert_some p cs))"
proof (induction p t and p cs rule: insert_qt_insert_some.induct)
  case (1 p b m d ps cs)
  let ?t = "QuadTree b m d ps cs"
  show ?case
  proof (cases "intersects (PointObj p) b")
    case False
    then have "insert_qt p ?t = (False, ?t)" by simp
    then show ?thesis using only_grown_refl [of ?t] by (simp del: only_grown.simps)
  next
    case inb: True
    show ?thesis
    proof (cases "length ps < m \<and> 0 < d")
      case True
      then show ?thesis using inb "1.prems" by simp
    next
      case False
      let ?cs0 = "expand ?t"
      let ?cs' = "snd (insert_some p ?cs0)"
      have eq: "insert_qt p ?t = (fst (insert_some p ?cs0), QuadTree b m d ps ?cs')"
        by (rule insert_qt_delegate [OF inb False])
      have rej: "\<not> fst (insert_some p ?cs0)" using "1.prems" eq by simp
      have ih: "list_all2 only_grown ?cs0 ?cs'"
        using "1.IH" [OF _ False] inb rej by (simp add: expand_def)
      have new: "\<forall>c' \<in> set ?cs'. empty_tree c'" if "cs = []"
      proof
        fix c' assume c': "c' \<in> set ?cs'"
        from list_all2_pick [OF ih c']
        obtain c where c: "c \<in> set ?cs0" "only_grown c c'" by blast
        have "empty_tree c" using expand_empty [OF that, of b m d ps] c(1) by blast
        then show "empty_tree c'" using empty_tree_grown c(2) by blast
      qed
      have old: "list_all2 only_grown cs ?cs'" if "cs \<noteq> []"
        using ih that by (simp add: expand_cases)
      have "only_grown ?t (QuadTree b m d ps ?cs')"
        using new old by (cases "cs = []") simp_all
      then show ?thesis
        unfolding eq snd_conv .
    qed
  qed
next
  case (2 p)
  show ?case by simp
next
  case (3 p c cs)
  have c: "\<not> fst (insert_qt p c)" and cs: "\<not> fst (insert_some p cs)"
    using "3.prems" by (auto simp add: insert_some_Cons simp del: insert_some.simps(2)
        split: if_splits)
  have "list_all2 only_grown cs (snd (insert_some p cs))"
    using "3.IH"(2) [of "fst (insert_qt p c)" "snd (insert_qt p c)"] c cs
    by (metis prod.collapse)
  moreover have "only_grown c (snd (insert_qt p c))"
    using c "3.IH"(1) by blast
  moreover have "snd (insert_some p (c # cs)) = snd (insert_qt p c) # snd (insert_some p cs)"
    using c by (simp add: insert_some_Cons del: insert_some.simps(2))
  ultimately show ?case by (simp del: only_grown.simps insert_some.simps)
qed

section \<open>The quadrants tile their parent\<close>

lemma in_region_quadrants:
  "(\<exists>q \<in> set (quadrants b). p \<in> region q) \<longleftrightarrow>
   (num_le (left b) (x p) \<and> num_le (x p) (midX b) \<or>
    num_le (midX b) (x p) \<and> num_le (x p) (right b)) \<and>
   (num_le (top_b b) (y p) \<and> num_le (y p) (midY b) \<or>
    num_le (midY b) (y p) \<and> num_le (y p) (bottom b))"
  by (simp add: quadrants_def region_def) blast

lemma between_split:
  assumes "num_le l m" "num_le m r"
  shows "num_le l a \<and> num_le a r \<longleftrightarrow> num_le l a \<and> num_le a m \<or> num_le m a \<and> num_le a r"
proof
  assume a: "num_le l a \<and> num_le a r"
  then have "a \<noteq> NaN" "m \<noteq> NaN" using num_le_NaN assms(1) by blast+
  then show "num_le l a \<and> num_le a m \<or> num_le m a \<and> num_le a r"
    using num_le_total [of a m] a by blast
next
  assume "num_le l a \<and> num_le a m \<or> num_le m a \<and> num_le a r"
  then show "num_le l a \<and> num_le a r"
    using num_le_trans [OF _ assms(2), of a] num_le_trans [OF assms(1), of a] by blast
qed

lemma quadrants_cover:
  assumes "num_le (left b) (midX b)" "num_le (midX b) (right b)"
    "num_le (top_b b) (midY b)" "num_le (midY b) (bottom b)"
  shows "(\<Union>q \<in> set (quadrants b). region q) = region b"
proof (rule set_eqI)
  fix p
  have "p \<in> region b \<longleftrightarrow>
     (num_le (left b) (x p) \<and> num_le (x p) (right b)) \<and>
     (num_le (top_b b) (y p) \<and> num_le (y p) (bottom b))"
    unfolding region_def mem_Collect_eq by blast
  then have "p \<in> region b \<longleftrightarrow> (\<exists>q \<in> set (quadrants b). p \<in> region q)"
    unfolding in_region_quadrants
      between_split [OF assms(1,2), of "x p"] between_split [OF assms(3,4), of "y p"] .
  then show "p \<in> (\<Union>q \<in> set (quadrants b). region q) \<longleftrightarrow> p \<in> region b"
    by blast
qed

lemma quadrants_nth:
  "quadrants b ! 0 = \<lparr>left = left b, top_b = top_b b, right = midX b, bottom = midY b\<rparr>"
  "quadrants b ! Suc 0 = \<lparr>left = midX b, top_b = top_b b, right = right b, bottom = midY b\<rparr>"
  "quadrants b ! 2 = \<lparr>left = left b, top_b = midY b, right = midX b, bottom = bottom b\<rparr>"
  "quadrants b ! 3 = \<lparr>left = midX b, top_b = midY b, right = right b, bottom = bottom b\<rparr>"
  by (simp_all add: quadrants_def numeral_2_eq_2 numeral_3_eq_3)

lemma quadrants_overlap:
  assumes "i < 4" "j < 4" "i \<noteq> j"
  shows "region (quadrants b ! i) \<inter> region (quadrants b ! j)
     \<subseteq> {p. x p = midX b \<or> y p = midY b}"
proof -
  have i: "i = 0 \<or> i = Suc 0 \<or> i = 2 \<or> i = 3" and j: "j = 0 \<or> j = Suc 0 \<or> j = 2 \<or> j = 3"
    using assms by auto
  have eqx: "x p = midX b" if "num_le (x p) (midX b)" "num_le (midX b) (x p)" for p
    using that by (rule num_le_antisym)
  have eqy: "y p = midY b" if "num_le (y p) (midY b)" "num_le (midY b) (y p)" for p
    using that by (rule num_le_antisym)
  show ?thesis
    using i j \<open>i \<noteq> j\<close> eqx eqy
    by (elim disjE; simp add: quadrants_nth region_def subset_iff; blast)
qed

lemma quadrants_length: "length (quadrants b) = 4"
  by (simp add: quadrants_def)

lemma tiledI:
  assumes "map bounds (children n) = quadrants (bounds n)"
    "num_le (left (bounds n)) (midX (bounds n)) \<and> num_le (midX (bounds n)) (right (bounds n)) \<and>
     num_le (top_b (bounds n)) (midY (bounds n)) \<and> num_le (midY (bounds n)) (bottom (bounds n))"
  shows "tiled n"
proof -
  have len: "length (children n) = 4"
    using assms(1) quadrants_length [of "bounds n"] by (metis length_map)
  have "(\<Union>c \<in> set (children n). region (bounds c)) =
        (\<Union>q \<in> set (map bounds (children n)). region q)"
    by simp
  then have cover: "(\<Union>c \<in> set (children n). region (bounds c)) = region (bounds n)"
    using quadrants_cover [of "bounds n"] assms by simp
  have nth: "bounds (children n ! i) = quadrants (bounds n) ! i" if "i < 4" for i
    using that len assms(1) by (metis nth_map)
  have "region (bounds (children n ! i)) \<inter> region (bounds (children n ! j))
      \<subseteq> {p. x p = midX (bounds n) \<or> y p = midY (bounds n)}"
    if "i < 4" "j < 4" "i \<noteq> j" for i j
    using quadrants_overlap [OF that, of "bounds n"] nth that by simp
  then show ?thesis
    unfolding tiled_def using assms(1) cover by blast
qed

lemma bounds_subdivide: "bounds (subdivide t) = bounds t"
  by (simp add: subdivide_def Let_def)

lemma map_bounds_subdivide:
  "children t = [] \<Longrightarrow> 0 < depth t \<Longrightarrow>
   map bounds (children (subdivide t)) = quadrants (bounds t)"
  by (simp add: children_subdivide QuadTree_new_def comp_def)

section \<open>Evaluating the arithmetic on small integers\<close>

lemma round_double_0: "round_double 0 = Fin 0"
  by (simp add: round_double_def round_core_def Let_def)

lemma round_double_numeral:
  "(numeral w :: int) \<le> 2 ^ 53 \<Longrightarrow> round_double (numeral w) = Fin (numeral w)"
  using is_double_int [of "numeral w"] by (simp add: is_double_def)

lemma is_double_0: "is_double 0"
  by (simp add: is_double_def round_double_0)

lemma is_double_numeral: "(numeral w :: int) \<le> 2 ^ 53 \<Longrightarrow> is_double (numeral w)"
  by (simp add: is_double_def round_double_numeral)

lemmas eval_canvas =
  round_double_0 round_double_numeral QuadTree_default_def QuadTree_new_def quadTreeBounds_def
  intersects_point subdivide_def Let_def build_def

section \<open>Range query and cross-tree matching\<close>

text \<open>
  C1 (overlap correctness). The claim: for trees A and B built from the point sets Pa
  and Pb, \<open>findCommonPoints\<close> returns exactly the points of Pa whose coordinates occur
  in Pb. The code at scenario 3 of the specification: A is built from (100,100), B from
  (100,100) and (200,200), every insert is accepted, and \<open>findCommonPoints\<close> returns the
  empty sequence instead of [(100,100)]. Its first test hands the rectangle
  \<^verbatim>\<open>this.bounds\<close> to \<open>intersects\<close>, which reads the properties \<^verbatim>\<open>x\<close> and \<^verbatim>\<open>y\<close> a
  rectangle does not have, so the test fails and the accumulator is returned as it came.
\<close>

theorem findCommonPoints_scenario3:
  "fst (insert_all [\<lparr>x = Fin 100, y = Fin 100\<rparr>] (QuadTree_default quadTreeBounds)) = [True] \<and>
   fst (insert_all [\<lparr>x = Fin 100, y = Fin 100\<rparr>, \<lparr>x = Fin 200, y = Fin 200\<rparr>]
         (QuadTree_default quadTreeBounds)) = [True, True] \<and>
   findCommonPoints
     (build quadTreeBounds 1 8 [\<lparr>x = Fin 100, y = Fin 100\<rparr>])
     (build quadTreeBounds 1 8 [\<lparr>x = Fin 100, y = Fin 100\<rparr>, \<lparr>x = Fin 200, y = Fin 200\<rparr>]) [] = []"
  by (simp add: findCommonPoints_acc eval_canvas)

text \<open>
  C2 (range query completeness). The claim: a point is returned by \<open>queryRange R\<close> if
  and only if it was inserted and lies within R. The code: after (10,10) is inserted into
  a fresh tree over the canvas, the query with the whole canvas as range returns nothing,
  although (10,10) lies within it. \<open>queryRange\<close> starts by handing the rectangle
  \<^verbatim>\<open>range\<close> to \<open>intersects\<close> as if it were a point; the test fails for every range
  and \<^verbatim>\<open>found\<close> is returned unchanged.
\<close>

theorem queryRange_misses_inserted_point:
  "fst (insert_qt \<lparr>x = Fin 10, y = Fin 10\<rparr> (QuadTree_default quadTreeBounds)) = True \<and>
   intersects (PointObj \<lparr>x = Fin 10, y = Fin 10\<rparr>) quadTreeBounds \<and>
   wf_bounds quadTreeBounds \<and>
   queryRange quadTreeBounds
     (snd (insert_qt \<lparr>x = Fin 10, y = Fin 10\<rparr> (QuadTree_default quadTreeBounds))) [] = []"
  by (simp add: queryRange_found eval_canvas wf_bounds_def)

text \<open>
  C6 (scenario 1). On a fresh tree over the canvas with threshold 1 and depth 8, both
  inserts of (10,10) return true, as the claim says; the query over the whole canvas then
  returns the empty sequence, not the two copies.
\<close>

theorem duplicate_insert_then_query:
  "fst (insert_all [\<lparr>x = Fin 10, y = Fin 10\<rparr>, \<lparr>x = Fin 10, y = Fin 10\<rparr>]
         (QuadTree_new quadTreeBounds 1 8)) = [True, True] \<and>
   queryRange quadTreeBounds
     (snd (insert_all [\<lparr>x = Fin 10, y = Fin 10\<rparr>, \<lparr>x = Fin 10, y = Fin 10\<rparr>]
            (QuadTree_new quadTreeBounds 1 8))) [] = []"
  by (simp add: queryRange_found eval_canvas)

section \<open>Bounds at insertion and construction\<close>

text \<open>
  C5 (out of bounds). Inserting a point outside the bounds of a node returns false and
  leaves the node as it was (the model has no exception because the code raises none);
  containment is inclusive on all four edges (\<open>num_le\<close> is \<^verbatim>\<open><=\<close>); on a fresh tree over the canvas the corner
  (600,400) is accepted and (601,400) is rejected.
\<close>

theorem insert_out_of_bounds:
  "(\<not> intersects (PointObj p) (bounds t) \<longrightarrow> insert_qt p t = (False, t)) \<and>
   (intersects (PointObj p) b \<longleftrightarrow>
      num_le (left b) (x p) \<and> num_le (x p) (right b) \<and>
      num_le (top_b b) (y p) \<and> num_le (y p) (bottom b)) \<and>
   fst (insert_qt \<lparr>x = Fin 600, y = Fin 400\<rparr> (QuadTree_default quadTreeBounds)) = True \<and>
   fst (insert_qt \<lparr>x = Fin 601, y = Fin 400\<rparr> (QuadTree_default quadTreeBounds)) = False"
proof -
  have "fst (insert_qt \<lparr>x = Fin 600, y = Fin 400\<rparr> (QuadTree_default quadTreeBounds)) = True"
    by (simp add: QuadTree_default_def QuadTree_new_def quadTreeBounds_def intersects_point)
  moreover
  have "fst (insert_qt \<lparr>x = Fin 601, y = Fin 400\<rparr> (QuadTree_default quadTreeBounds)) = False"
    by (simp add: QuadTree_default_def QuadTree_new_def quadTreeBounds_def intersects_point)
  ultimately show ?thesis
    using insert_qt_outside [of p t] intersects_point [of p b] by blast
qed

theorem insert_out_of_bounds_witness:
  "\<not> intersects (PointObj \<lparr>x = Fin 601, y = Fin 400\<rparr>) (bounds (QuadTree_default quadTreeBounds)) \<and>
   insert_qt \<lparr>x = Fin 601, y = Fin 400\<rparr> (QuadTree_default quadTreeBounds) =
     (False, QuadTree_default quadTreeBounds)"
proof -
  have out: "\<not> intersects (PointObj \<lparr>x = Fin 601, y = Fin 400\<rparr>)
      (bounds (QuadTree_default quadTreeBounds))"
    by (simp add: QuadTree_default_def QuadTree_new_def quadTreeBounds_def intersects_point)
  show ?thesis
    using out insert_out_of_bounds
      [of "\<lparr>x = Fin 601, y = Fin 400\<rparr>" "QuadTree_default quadTreeBounds" quadTreeBounds]
    by blast
qed

text \<open>
  C7 (invalid bounds). The claim: constructing a node with \<open>left > right\<close> or
  \<open>top > bottom\<close> fails with an error. The constructor checks nothing: with the bounds
  (10,0)-(0,10) it returns an ordinary empty node.
\<close>

theorem constructor_accepts_malformed_bounds:
  "\<not> wf_bounds \<lparr>left = Fin 10, top_b = Fin 0, right = Fin 0, bottom = Fin 10\<rparr> \<and>
   QuadTree_new \<lparr>left = Fin 10, top_b = Fin 0, right = Fin 0, bottom = Fin 10\<rparr> 1 8 =
     QuadTree \<lparr>left = Fin 10, top_b = Fin 0, right = Fin 0, bottom = Fin 10\<rparr> 1 8 [] []"
  by (simp add: wf_bounds_def QuadTree_new_def)

text \<open>
  C7 as amended: the constructor validates nothing and returns, for any bounds, a node
  with these bounds, no points and no children; a node constructed with malformed bounds
  contains no point, so every insert into it returns false and leaves it unchanged.
\<close>

theorem constructor_no_validation:
  "QuadTree_new b m d = QuadTree b m d [] [] \<and>
   (\<not> wf_bounds b \<longrightarrow> insert_qt p (QuadTree_new b m d) = (False, QuadTree_new b m d))"
proof -
  have "\<not> intersects (PointObj p) b" if "\<not> wf_bounds b"
    using that num_le_trans [of "left b" "x p" "right b"] num_le_trans [of "top_b b" "y p" "bottom b"]
    by (auto simp: wf_bounds_def intersects_point)
  then show ?thesis
    using insert_qt_outside [of p "QuadTree_new b m d"] by (auto simp: QuadTree_new_def)
qed

theorem constructor_no_validation_witness:
  "\<not> wf_bounds \<lparr>left = Fin 10, top_b = Fin 0, right = Fin 0, bottom = Fin 10\<rparr> \<and>
   insert_qt \<lparr>x = Fin 5, y = Fin 5\<rparr> (QuadTree_new \<lparr>left = Fin 10, top_b = Fin 0, right = Fin 0, bottom = Fin 10\<rparr> 1 8) =
     (False, QuadTree_new \<lparr>left = Fin 10, top_b = Fin 0, right = Fin 0, bottom = Fin 10\<rparr> 1 8)"
proof -
  have bad: "\<not> wf_bounds \<lparr>left = Fin 10, top_b = Fin 0, right = Fin 0, bottom = Fin 10\<rparr>"
    by (simp add: wf_bounds_def)
  show ?thesis
    using bad constructor_no_validation
      [of "\<lparr>left = Fin 10, top_b = Fin 0, right = Fin 0, bottom = Fin 10\<rparr>" 1 8 "\<lparr>x = Fin 5, y = Fin 5\<rparr>"]
    by blast
qed

section \<open>Capacity of a path\<close>

text \<open>
  C3 (exhausted depth). The claim: a node whose remaining depth is zero accepts every
  point within its bounds and stores unboundedly many. The code: \<open>insert\<close> stores a
  point only where \<^verbatim>\<open>this.depth > 0\<close>, and \<open>subdivide\<close> gives a depth-0 node no
  children, so the fresh depth-0 node over the canvas rejects the point (10,10) that
  lies within its bounds.
\<close>

theorem depth0_insert_rejected:
  "depth (QuadTree_new quadTreeBounds 1 0) = 0 \<and>
   intersects (PointObj \<lparr>x = Fin 10, y = Fin 10\<rparr>) (bounds (QuadTree_new quadTreeBounds 1 0)) \<and>
   fst (insert_qt \<lparr>x = Fin 10, y = Fin 10\<rparr> (QuadTree_new quadTreeBounds 1 0)) = False"
  by (simp add: eval_canvas)

text \<open>
  C3 as amended: a node whose remaining depth is zero never subdivides and stores
  nothing; inserting any point into it returns false and leaves it unchanged. This holds
  for every depth-0 node without children, and every depth-0 node of a tree built by
  inserts from a fresh root is such a node, with no stored points.
\<close>

theorem depth0_node_stores_nothing:
  "(depth t = 0 \<and> children t = [] \<longrightarrow> subdivide t = t \<and> insert_qt p t = (False, t)) \<and>
   (n \<in> set (nodes (build b m d ps)) \<and> depth n = 0 \<longrightarrow>
      points n = [] \<and> children n = [] \<and> subdivide n = n \<and> insert_qt p n = (False, n))"
proof -
  have "points n = [] \<and> children n = []"
    if "n \<in> set (nodes (build b m d ps))" "depth n = 0"
    using tree_inv_depth0 [OF tree_inv_nodes [OF tree_inv_build that(1)] that(2)] .
  then show ?thesis
    using insert_qt_depth0 subdivide_depth0 by blast
qed

theorem depth0_node_stores_nothing_witness:
  "depth (QuadTree_new quadTreeBounds 1 0) = 0 \<and>
   children (QuadTree_new quadTreeBounds 1 0) = [] \<and>
   insert_qt \<lparr>x = Fin 10, y = Fin 10\<rparr> (QuadTree_new quadTreeBounds 1 0) =
     (False, QuadTree_new quadTreeBounds 1 0) \<and>
   QuadTree_new \<lparr>left = Fin 0, top_b = Fin 0, right = Fin 300, bottom = Fin 200\<rparr> 1 0
     \<in> set (nodes (build quadTreeBounds 1 1 [\<lparr>x = Fin 10, y = Fin 10\<rparr>, \<lparr>x = Fin 10, y = Fin 10\<rparr>])) \<and>
   depth (QuadTree_new \<lparr>left = Fin 0, top_b = Fin 0, right = Fin 300, bottom = Fin 200\<rparr> 1 0) = 0 \<and>
   insert_qt \<lparr>x = Fin 10, y = Fin 10\<rparr>
     (QuadTree_new \<lparr>left = Fin 0, top_b = Fin 0, right = Fin 300, bottom = Fin 200\<rparr> 1 0) =
     (False, QuadTree_new \<lparr>left = Fin 0, top_b = Fin 0, right = Fin 300, bottom = Fin 200\<rparr> 1 0)"
proof -
  let ?p = "\<lparr>x = Fin 10, y = Fin 10\<rparr>"
  let ?t = "QuadTree_new quadTreeBounds 1 0"
  let ?n = "QuadTree_new \<lparr>left = Fin 0, top_b = Fin 0, right = Fin 300, bottom = Fin 200\<rparr> 1 0"
  have t: "depth ?t = 0" "children ?t = []"
    by (simp_all add: QuadTree_new_def)
  have n1: "?n \<in> set (nodes (build quadTreeBounds 1 1 [?p, ?p]))"
    by (simp add: eval_canvas)
  have n2: "depth ?n = 0" by (simp add: QuadTree_new_def)
  show ?thesis
    using t n1 n2
      depth0_node_stores_nothing [of ?t ?p ?n quadTreeBounds 1 1 "[?p, ?p]"]
    by blast
qed

text \<open>
  C4 (atomic rejection). The claim: an insert that returns false changes nothing, and in
  particular creates no child nodes. The code: on the tree over the canvas with threshold
  1 and depth 1 that holds (10,10), inserting (10,10) again subdivides the root first,
  is then rejected by all four depth-0 children, and returns false with the four
  children left in place.
\<close>

theorem rejected_insert_subdivides:
  "children (build quadTreeBounds 1 1 [\<lparr>x = Fin 10, y = Fin 10\<rparr>]) = [] \<and>
   fst (insert_qt \<lparr>x = Fin 10, y = Fin 10\<rparr> (build quadTreeBounds 1 1 [\<lparr>x = Fin 10, y = Fin 10\<rparr>])) = False \<and>
   length (children (snd (insert_qt \<lparr>x = Fin 10, y = Fin 10\<rparr>
     (build quadTreeBounds 1 1 [\<lparr>x = Fin 10, y = Fin 10\<rparr>])))) = 4"
  by (simp add: eval_canvas)

text \<open>
  C4 as amended: an insert that returns false modifies no stored-points list: every node
  present before the call keeps its bounds, threshold, depth and stored points, and the
  nodes the call has created by subdividing hold no points. When the point lies outside
  the bounds of the node the call leaves the node exactly as it was.
\<close>

theorem rejected_insert_keeps_points:
  "(\<not> fst (insert_qt p t) \<longrightarrow> only_grown t (snd (insert_qt p t))) \<and>
   (\<not> intersects (PointObj p) (bounds t) \<longrightarrow> insert_qt p t = (False, t))"
  using rejected_only_grown(1) [of p t] insert_qt_outside [of p t] by blast

theorem rejected_insert_keeps_points_witness:
  "\<not> fst (insert_qt \<lparr>x = Fin 10, y = Fin 10\<rparr> (build quadTreeBounds 1 1 [\<lparr>x = Fin 10, y = Fin 10\<rparr>])) \<and>
   only_grown (build quadTreeBounds 1 1 [\<lparr>x = Fin 10, y = Fin 10\<rparr>])
     (snd (insert_qt \<lparr>x = Fin 10, y = Fin 10\<rparr> (build quadTreeBounds 1 1 [\<lparr>x = Fin 10, y = Fin 10\<rparr>]))) \<and>
   \<not> intersects (PointObj \<lparr>x = Fin 601, y = Fin 400\<rparr>)
       (bounds (build quadTreeBounds 1 1 [\<lparr>x = Fin 10, y = Fin 10\<rparr>])) \<and>
   insert_qt \<lparr>x = Fin 601, y = Fin 400\<rparr> (build quadTreeBounds 1 1 [\<lparr>x = Fin 10, y = Fin 10\<rparr>]) =
     (False, build quadTreeBounds 1 1 [\<lparr>x = Fin 10, y = Fin 10\<rparr>])"
proof -
  let ?t = "build quadTreeBounds 1 1 [\<lparr>x = Fin 10, y = Fin 10\<rparr>]"
  have r: "\<not> fst (insert_qt \<lparr>x = Fin 10, y = Fin 10\<rparr> ?t)"
    by (simp add: eval_canvas)
  have out: "\<not> intersects (PointObj \<lparr>x = Fin 601, y = Fin 400\<rparr>) (bounds ?t)"
    by (simp add: bounds_build quadTreeBounds_def intersects_point)
  show ?thesis
    using r out rejected_insert_keeps_points [of "\<lparr>x = Fin 10, y = Fin 10\<rparr>" ?t]
      rejected_insert_keeps_points [of "\<lparr>x = Fin 601, y = Fin 400\<rparr>" ?t]
    by blast
qed

text \<open>
  C10 (capacity exhaustion). On a fresh tree with threshold 1 and depth \<open>d\<close>, inserting
  again and again one point that lies within the root bounds and strictly inside one
  quadrant at each of the \<open>d\<close> subdivision levels, the quadrants being those
  \<open>subdivide\<close> computes, gives \<open>d\<close> times true and then false.
\<close>

theorem repeated_insert_exhausts_path:
  assumes "intersects (PointObj p) b" and "inside_one_quadrant p b d"
  shows "fst (insert_all (replicate (Suc d) p) (QuadTree_new b 1 d)) = replicate d True @ [False]"
proof -
  have "room p (QuadTree_new b 1 d) = d"
    unfolding room_new by (rule fresh_room_inside [OF assms])
  then show ?thesis
    using insert_all_replicate [of "Suc d" p "QuadTree_new b 1 d"] by simp
qed

theorem repeated_insert_exhausts_path_witness:
  "intersects (PointObj \<lparr>x = Fin 10, y = Fin 10\<rparr>) quadTreeBounds \<and>
   inside_one_quadrant \<lparr>x = Fin 10, y = Fin 10\<rparr> quadTreeBounds 3 \<and>
   fst (insert_all (replicate 4 \<lparr>x = Fin 10, y = Fin 10\<rparr>) (QuadTree_new quadTreeBounds 1 3))
     = [True, True, True, False]"
proof -
  have h1: "intersects (PointObj \<lparr>x = Fin 10, y = Fin 10\<rparr>) quadTreeBounds"
    by (simp add: quadTreeBounds_def intersects_point)
  have h2: "inside_one_quadrant \<lparr>x = Fin 10, y = Fin 10\<rparr> quadTreeBounds 3"
    by (simp add: eval_nat_numeral quadrants_def midX_def midY_def strictly_inside_def
        round_double_0 round_double_numeral quadTreeBounds_def)
  show ?thesis
    using h1 h2 repeated_insert_exhausts_path [OF h1 h2] by (simp add: eval_nat_numeral)
qed

section \<open>Subdivision\<close>

text \<open>The bounds (2^1023, 2^1023)-(1.5 * 2^1023, 1.5 * 2^1023): finite doubles whose
  sums overflow.\<close>

lemma huge_doubles: "is_double (2 ^ 1023)" "is_double (3 * 2 ^ 1022)"
proof -
  have a: "(2::rat) ^ 1023 = 2 powi 1023" by (simp add: power_int_def)
  show "is_double (2 ^ 1023)"
    unfolding a by (rule grid_is_double [OF is_grid_pow]) (simp_all add: power_int_def)
  have g: "is_grid (of_int 3 * 2 powi 1022)"
    unfolding is_grid_def by (intro exI [of _ 3] exI [of _ 1022]) simp
  have b: "(3::rat) * 2 ^ 1022 = of_int 3 * 2 powi 1022" by (simp add: power_int_def)
  show "is_double (3 * 2 ^ 1022)"
    unfolding b by (rule grid_is_double [OF g]) (simp add: power_int_def)
qed

lemma huge_mid: "js_half (js_add (Fin (2 ^ 1023)) (Fin (3 * 2 ^ 1022))) = PosInf"
  using mid_overflow by (simp only: midpoint_def)

lemma huge_subdivide:
  "children (subdivide (QuadTree_new
     \<lparr>left = Fin (2 ^ 1023), top_b = Fin (2 ^ 1023),
      right = Fin (3 * 2 ^ 1022), bottom = Fin (3 * 2 ^ 1022)\<rparr> 1 8)) =
   [QuadTree_new \<lparr>left = Fin (2 ^ 1023), top_b = Fin (2 ^ 1023),
      right = PosInf, bottom = PosInf\<rparr> 1 7,
    QuadTree_new \<lparr>left = PosInf, top_b = Fin (2 ^ 1023),
      right = Fin (3 * 2 ^ 1022), bottom = PosInf\<rparr> 1 7,
    QuadTree_new \<lparr>left = Fin (2 ^ 1023), top_b = PosInf,
      right = PosInf, bottom = Fin (3 * 2 ^ 1022)\<rparr> 1 7,
    QuadTree_new \<lparr>left = PosInf, top_b = PosInf,
      right = Fin (3 * 2 ^ 1022), bottom = Fin (3 * 2 ^ 1022)\<rparr> 1 7]"
  unfolding subdivide_def Let_def
  by (simp only: huge_mid QuadTree_new_def QuadTree.sel list.size rect.simps append.simps
      if_False simp_thms less_irrefl diff_numeral_special) simp

text \<open>
  C8 (partition invariant). The claim: every node with well-formed bounds that has
  subdivided is tiled by its four children. The code: with the well-formed bounds
  (2^1023, 2^1023)-(1.5 * 2^1023, 1.5 * 2^1023) both sums \<^verbatim>\<open>left + right\<close> and
  \<^verbatim>\<open>top + bottom\<close> overflow, the midpoints are \<^verbatim>\<open>Infinity\<close>, and the top-left child
  reaches beyond its parent: the children do not tile the node.
\<close>

theorem subdivide_overflow_not_tiled:
  "is_double (2 ^ 1023) \<and> is_double (3 * 2 ^ 1022) \<and>
   children (QuadTree_new
     \<lparr>left = Fin (2 ^ 1023), top_b = Fin (2 ^ 1023),
      right = Fin (3 * 2 ^ 1022), bottom = Fin (3 * 2 ^ 1022)\<rparr> 1 8) = [] \<and>
   0 < depth (QuadTree_new
     \<lparr>left = Fin (2 ^ 1023), top_b = Fin (2 ^ 1023),
      right = Fin (3 * 2 ^ 1022), bottom = Fin (3 * 2 ^ 1022)\<rparr> 1 8) \<and>
   wf_bounds (bounds (QuadTree_new
     \<lparr>left = Fin (2 ^ 1023), top_b = Fin (2 ^ 1023),
      right = Fin (3 * 2 ^ 1022), bottom = Fin (3 * 2 ^ 1022)\<rparr> 1 8)) \<and>
   bounds (hd (children (subdivide (QuadTree_new
     \<lparr>left = Fin (2 ^ 1023), top_b = Fin (2 ^ 1023),
      right = Fin (3 * 2 ^ 1022), bottom = Fin (3 * 2 ^ 1022)\<rparr> 1 8)))) =
     \<lparr>left = Fin (2 ^ 1023), top_b = Fin (2 ^ 1023), right = PosInf, bottom = PosInf\<rparr> \<and>
   \<not> tiled (subdivide (QuadTree_new
     \<lparr>left = Fin (2 ^ 1023), top_b = Fin (2 ^ 1023),
      right = Fin (3 * 2 ^ 1022), bottom = Fin (3 * 2 ^ 1022)\<rparr> 1 8))"
proof -
  let ?B = "\<lparr>left = Fin (2 ^ 1023), top_b = Fin (2 ^ 1023),
      right = Fin (3 * 2 ^ 1022), bottom = Fin (3 * 2 ^ 1022)\<rparr>"
  let ?T = "QuadTree_new ?B 1 8"
  let ?C = "\<lparr>left = Fin (2 ^ 1023), top_b = Fin (2 ^ 1023), right = PosInf, bottom = PosInf\<rparr>"
  let ?p = "\<lparr>x = PosInf, y = PosInf\<rparr>"
  have t: "children ?T = []" "0 < depth ?T" by (simp_all add: QuadTree_new_def)
  have wf: "wf_bounds (bounds ?T)" by (simp add: QuadTree_new_def wf_bounds_def)
  have c: "bounds (hd (children (subdivide ?T))) = ?C"
    unfolding huge_subdivide by (simp add: QuadTree_new_def)
  have "QuadTree_new ?C 1 7 \<in> set (children (subdivide ?T))"
    unfolding huge_subdivide by simp
  moreover have "?p \<in> region (bounds (QuadTree_new ?C 1 7))"
    by (simp add: region_def QuadTree_new_def)
  ultimately have "?p \<in> (\<Union>c \<in> set (children (subdivide ?T)). region (bounds c))"
    by blast
  moreover have "?p \<notin> region (bounds (subdivide ?T))"
    by (simp add: bounds_subdivide region_def QuadTree_new_def)
  ultimately have "\<not> tiled (subdivide ?T)"
    unfolding tiled_def by blast
  then show ?thesis using huge_doubles t wf c by blast
qed

text \<open>
  C8 as amended: a node that has subdivided and whose well-formed bounds have finite
  sums (finite double coordinates, neither \<^verbatim>\<open>left + right\<close> nor \<^verbatim>\<open>top + bottom\<close>
  overflowing) has exactly four children in the order top-left, top-right, bottom-left,
  bottom-right; their regions cover exactly the region of the node and overlap on the
  midlines only. This holds for the result of \<open>subdivide\<close> on a node without children
  and with depth budget and for every node with children of a tree built by inserts; in
  a tree built from a root with well-formed bounds of magnitude at most \<open>2 ^ 1022\<close> it
  holds for every node with children.
\<close>

theorem subdivided_children_tile_parent:
  "(children t = [] \<and> 0 < depth t \<and> wf_bounds (bounds t) \<and> finite_sums (bounds t)
      \<longrightarrow> tiled (subdivide t)) \<and>
   (n \<in> set (nodes (build b m d ps)) \<and> children n \<noteq> [] \<and>
    wf_bounds (bounds n) \<and> finite_sums (bounds n) \<longrightarrow> tiled n) \<and>
   (wf_bounds b \<and> in_range b \<and> n \<in> set (nodes (build b m d ps)) \<and> children n \<noteq> []
      \<longrightarrow> tiled n)"
proof -
  have "tiled (subdivide t)"
    if "children t = []" "0 < depth t" "wf_bounds (bounds t)" "finite_sums (bounds t)"
    using tiledI [of "subdivide t"] map_bounds_subdivide [OF that(1,2)]
      mid_between [OF that(3,4)] by (simp add: bounds_subdivide)
  moreover
  have node: "tiled n" if "n \<in> set (nodes (build b m d ps))" "children n \<noteq> []"
    "wf_bounds (bounds n)" "finite_sums (bounds n)" for n
  proof -
    have "tree_inv n" using tree_inv_nodes [OF tree_inv_build that(1)] .
    then have "map bounds (children n) = quadrants (bounds n)"
      using tree_inv_children that(2) by blast
    then show ?thesis using tiledI mid_between [OF that(3,4)] by blast
  qed
  moreover
  have "tiled n" if "wf_bounds b" "in_range b" "n \<in> set (nodes (build b m d ps))"
    "children n \<noteq> []"
  proof -
    have "wf_bounds (bounds n) \<and> in_range (bounds n)"
      using nodes_wf [OF tree_inv_build _ _ that(3)] that(1,2) by (simp add: bounds_build)
    then show ?thesis using node [OF that(3,4)] in_range_finite_sums by blast
  qed
  ultimately show ?thesis by blast
qed

theorem subdivided_children_tile_parent_witness:
  "children (QuadTree_default quadTreeBounds) = [] \<and>
   0 < depth (QuadTree_default quadTreeBounds) \<and>
   wf_bounds (bounds (QuadTree_default quadTreeBounds)) \<and>
   finite_sums (bounds (QuadTree_default quadTreeBounds)) \<and>
   tiled (subdivide (QuadTree_default quadTreeBounds)) \<and>
   build quadTreeBounds 1 8 [\<lparr>x = Fin 10, y = Fin 10\<rparr>, \<lparr>x = Fin 10, y = Fin 10\<rparr>]
     \<in> set (nodes (build quadTreeBounds 1 8
           [\<lparr>x = Fin 10, y = Fin 10\<rparr>, \<lparr>x = Fin 10, y = Fin 10\<rparr>])) \<and>
   children (build quadTreeBounds 1 8
     [\<lparr>x = Fin 10, y = Fin 10\<rparr>, \<lparr>x = Fin 10, y = Fin 10\<rparr>]) \<noteq> [] \<and>
   wf_bounds (bounds (build quadTreeBounds 1 8
     [\<lparr>x = Fin 10, y = Fin 10\<rparr>, \<lparr>x = Fin 10, y = Fin 10\<rparr>])) \<and>
   finite_sums (bounds (build quadTreeBounds 1 8
     [\<lparr>x = Fin 10, y = Fin 10\<rparr>, \<lparr>x = Fin 10, y = Fin 10\<rparr>])) \<and>
   wf_bounds quadTreeBounds \<and> in_range quadTreeBounds \<and>
   tiled (build quadTreeBounds 1 8 [\<lparr>x = Fin 10, y = Fin 10\<rparr>, \<lparr>x = Fin 10, y = Fin 10\<rparr>])"
proof -
  let ?t = "QuadTree_default quadTreeBounds"
  let ?n = "build quadTreeBounds 1 8 [\<lparr>x = Fin 10, y = Fin 10\<rparr>, \<lparr>x = Fin 10, y = Fin 10\<rparr>]"
  have b: "wf_bounds quadTreeBounds" "finite_sums quadTreeBounds" "in_range quadTreeBounds"
    by (simp_all add: finite_sums_def in_range_def wf_bounds_def quadTreeBounds_def
        is_double_0 is_double_numeral round_double_0 round_double_numeral)
  have t: "children ?t = []" "0 < depth ?t" "bounds ?t = quadTreeBounds"
    by (simp_all add: QuadTree_default_def QuadTree_new_def)
  have n1: "?n \<in> set (nodes ?n)" by (cases ?n) simp
  have n2: "children ?n \<noteq> []" by (simp add: eval_canvas)
  have n3: "bounds ?n = quadTreeBounds" by (rule bounds_build)
  have wt: "wf_bounds (bounds ?t)" "finite_sums (bounds ?t)"
    using b(1,2) by (simp_all only: t(3))
  have wn: "wf_bounds (bounds ?n)" "finite_sums (bounds ?n)"
    using b(1,2) by (simp_all only: n3)
  show ?thesis
    using b wt wn t(1,2) n1 n2 subdivided_children_tile_parent [of ?t ?n quadTreeBounds 1 8
        "[\<lparr>x = Fin 10, y = Fin 10\<rparr>, \<lparr>x = Fin 10, y = Fin 10\<rparr>]"]
    by blast
qed

text \<open>
  C9 (well-formed bounds). The claim: subdividing a node with well-formed bounds gives
  four children with well-formed bounds, the midpoints always lying between the
  endpoints. The code: with the well-formed bounds
  (2^1023, 2^1023)-(1.5 * 2^1023, 1.5 * 2^1023) the sums overflow, both midpoints are
  \<^verbatim>\<open>Infinity\<close>, and three of the four children have \<open>left > right\<close> or
  \<open>top > bottom\<close>.
\<close>

theorem subdivide_overflow_malformed_children:
  "is_double (2 ^ 1023) \<and> is_double (3 * 2 ^ 1022) \<and>
   wf_bounds (bounds (QuadTree_new
     \<lparr>left = Fin (2 ^ 1023), top_b = Fin (2 ^ 1023),
      right = Fin (3 * 2 ^ 1022), bottom = Fin (3 * 2 ^ 1022)\<rparr> 1 8)) \<and>
   midX \<lparr>left = Fin (2 ^ 1023), top_b = Fin (2 ^ 1023),
      right = Fin (3 * 2 ^ 1022), bottom = Fin (3 * 2 ^ 1022)\<rparr> = PosInf \<and>
   map (\<lambda>c. wf_bounds (bounds c)) (children (subdivide (QuadTree_new
     \<lparr>left = Fin (2 ^ 1023), top_b = Fin (2 ^ 1023),
      right = Fin (3 * 2 ^ 1022), bottom = Fin (3 * 2 ^ 1022)\<rparr> 1 8))) =
     [True, False, False, False]"
proof -
  let ?B = "\<lparr>left = Fin (2 ^ 1023), top_b = Fin (2 ^ 1023),
      right = Fin (3 * 2 ^ 1022), bottom = Fin (3 * 2 ^ 1022)\<rparr>"
  have wf: "wf_bounds (bounds (QuadTree_new ?B 1 8))"
    by (simp add: QuadTree_new_def wf_bounds_def)
  have m: "midX ?B = PosInf" using huge_mid by (simp add: midX_def)
  have "map (\<lambda>c. wf_bounds (bounds c)) (children (subdivide (QuadTree_new ?B 1 8))) =
      [True, False, False, False]"
    unfolding huge_subdivide by (simp add: QuadTree_new_def wf_bounds_def)
  then show ?thesis using huge_doubles wf m by blast
qed

text \<open>
  C9 as amended: for well-formed bounds with finite sums both midpoints lie between the
  corresponding endpoints, and \<open>subdivide\<close> on a node with such bounds creates four
  children with well-formed bounds; every node of a tree built by inserts from a fresh
  root with well-formed bounds of magnitude at most \<open>2 ^ 1022\<close> has well-formed bounds.
\<close>

theorem subdivide_keeps_bounds_well_formed:
  "(wf_bounds (bounds t) \<and> finite_sums (bounds t) \<longrightarrow>
      num_le (left (bounds t)) (midX (bounds t)) \<and>
      num_le (midX (bounds t)) (right (bounds t)) \<and>
      num_le (top_b (bounds t)) (midY (bounds t)) \<and>
      num_le (midY (bounds t)) (bottom (bounds t))) \<and>
   (wf_bounds (bounds t) \<and> finite_sums (bounds t) \<and> children t = [] \<and> 0 < depth t \<longrightarrow>
      length (children (subdivide t)) = 4 \<and>
      (\<forall>c \<in> set (children (subdivide t)). wf_bounds (bounds c))) \<and>
   (wf_bounds b \<and> in_range b \<and> n \<in> set (nodes (build b m d ps)) \<longrightarrow> wf_bounds (bounds n))"
proof -
  have "length (children (subdivide t)) = 4 \<and>
      (\<forall>c \<in> set (children (subdivide t)). wf_bounds (bounds c))"
    if "wf_bounds (bounds t)" "finite_sums (bounds t)" "children t = []" "0 < depth t"
  proof -
    have m: "map bounds (children (subdivide t)) = quadrants (bounds t)"
      using map_bounds_subdivide that(3,4) .
    then have "length (children (subdivide t)) = 4"
      using quadrants_length [of "bounds t"] by (metis length_map)
    moreover have "wf_bounds (bounds c)" if "c \<in> set (children (subdivide t))" for c
    proof -
      have "bounds c \<in> set (map bounds (children (subdivide t)))" using that by simp
      then show ?thesis
        using m quadrants_wf \<open>wf_bounds (bounds t)\<close> \<open>finite_sums (bounds t)\<close> by simp
    qed
    ultimately show ?thesis by blast
  qed
  moreover have "wf_bounds (bounds n)"
    if "wf_bounds b" "in_range b" "n \<in> set (nodes (build b m d ps))"
    using nodes_wf [OF tree_inv_build _ _ that(3)] that(1,2) by (simp add: bounds_build)
  ultimately show ?thesis using mid_between [of "bounds t"] by blast
qed

theorem subdivide_keeps_bounds_well_formed_witness:
  "wf_bounds (bounds (QuadTree_default quadTreeBounds)) \<and>
   finite_sums (bounds (QuadTree_default quadTreeBounds)) \<and>
   children (QuadTree_default quadTreeBounds) = [] \<and>
   0 < depth (QuadTree_default quadTreeBounds) \<and>
   length (children (subdivide (QuadTree_default quadTreeBounds))) = 4 \<and>
   map (\<lambda>c. wf_bounds (bounds c)) (children (subdivide (QuadTree_default quadTreeBounds)))
     = [True, True, True, True] \<and>
   wf_bounds quadTreeBounds \<and> in_range quadTreeBounds \<and>
   QuadTree_new \<lparr>left = Fin 0, top_b = Fin 0, right = Fin 300, bottom = Fin 200\<rparr> 1 0
     \<in> set (nodes (build quadTreeBounds 1 1
           [\<lparr>x = Fin 10, y = Fin 10\<rparr>, \<lparr>x = Fin 10, y = Fin 10\<rparr>])) \<and>
   wf_bounds (bounds
     (QuadTree_new \<lparr>left = Fin 0, top_b = Fin 0, right = Fin 300, bottom = Fin 200\<rparr> 1 0))"
proof -
  let ?p = "\<lparr>x = Fin 10, y = Fin 10\<rparr>"
  let ?t = "QuadTree_default quadTreeBounds"
  let ?n = "QuadTree_new \<lparr>left = Fin 0, top_b = Fin 0, right = Fin 300, bottom = Fin 200\<rparr> 1 0"
  have b: "wf_bounds quadTreeBounds" "finite_sums quadTreeBounds" "in_range quadTreeBounds"
    by (simp_all add: finite_sums_def in_range_def wf_bounds_def quadTreeBounds_def
        is_double_0 is_double_numeral round_double_0 round_double_numeral)
  have t: "children ?t = []" "0 < depth ?t" "bounds ?t = quadTreeBounds"
    by (simp_all add: QuadTree_default_def QuadTree_new_def)
  have n1: "?n \<in> set (nodes (build quadTreeBounds 1 1 [?p, ?p]))"
    by (simp add: eval_canvas)
  have w: "wf_bounds (bounds ?t)" "finite_sums (bounds ?t)"
    using b(1,2) by (simp_all only: t(3))
  have "length (children (subdivide ?t)) = 4 \<and> wf_bounds (bounds ?n)"
    using w b(1,3) t(1,2) n1
      subdivide_keeps_bounds_well_formed [of ?t quadTreeBounds ?n 1 1 "[?p, ?p]"]
    by blast
  moreover have "map (\<lambda>c. wf_bounds (bounds c)) (children (subdivide ?t))
      = [True, True, True, True]"
    by (simp add: eval_canvas wf_bounds_def)
  ultimately show ?thesis using w b t(1,2) n1 by blast
qed

end
